theory Spec2Isabelle
  imports Complex_Main "HOL-Library.Multiset"
begin

section \<open>The collaborators outside the repository\<close>

text \<open>
  \<^verbatim>\<open>main.go\<close> calls \<^verbatim>\<open>ioutil.ReadDir\<close>, \<^verbatim>\<open>filepath.Join\<close> and the
  \<^verbatim>\<open>imaging\<close> library. None of them is code of the repository, so they are parameters of
  the model. The file system is a state \<open>'fs\<close> of which nothing is assumed: reading a
  directory and opening an image inspect it, saving an image may change it (also when the
  save fails). A decoded image is a value of type \<open>'img\<close>.
\<close>

record entry =
  Name :: string
  IsDir :: bool

record ('fs, 'img) world =
  ReadDir :: "'fs \<Rightarrow> string \<Rightarrow> string + entry list"
  Join :: "string \<Rightarrow> string \<Rightarrow> string"
  Open :: "'fs \<Rightarrow> string \<Rightarrow> string + 'img"
  Grayscale :: "'img \<Rightarrow> 'img"
  Blur :: "'img \<Rightarrow> real \<Rightarrow> 'img"
  Save :: "'fs \<Rightarrow> 'img \<Rightarrow> string \<Rightarrow> string option \<times> 'fs"

text \<open>Every call that reaches a collaborator is recorded, in the order of the calls.\<close>

datatype call =
    ReadDirCall string
  | OpenCall string
  | GrayscaleCall
  | BlurCall real
  | SaveCall string

text \<open>What the program prints: one value for each call of \<^verbatim>\<open>Printf\<close> or \<^verbatim>\<open>Println\<close>.\<close>

datatype line =
    Usage
  | InvalidTask string
  | ReadDirError string
  | GrayscaleError string string
  | BlurError string string
  | InvalidFilter string
  | Finished string

fun render :: "line \<Rightarrow> string" where
  "render Usage =
     ''Usage: imggo -src <source_folder> -dst <destination_folder> -filter <filter_type> -task <task_method>''
       @ [CHR 0x0A]"
| "render (InvalidTask t) = ''Invalid task method: '' @ t @ [CHR 0x0A]"
| "render (ReadDirError e) = ''Error reading directory: '' @ e @ [CHR 0x0A]"
| "render (GrayscaleError n e) =
     ''Error applying grayscale filter to '' @ n @ '': '' @ e @ [CHR 0x0A]"
| "render (BlurError n e) = ''Error applying blur filter to '' @ n @ '': '' @ e @ [CHR 0x0A]"
| "render (InvalidFilter f) = ''Invalid filter: '' @ f @ [CHR 0x0A]"
| "render (Finished n) = ''Finished processing: '' @ n @ [CHR 0x0A]"


section \<open>The program as a system of goroutines\<close>

text \<open>The four command-line flags of \<^verbatim>\<open>main\<close>, after \<^verbatim>\<open>flag.Parse\<close>.\<close>

record flags =
  srcPath :: string
  destPath :: string
  filterName :: string
  task :: string

text \<open>
  Control points of a worker goroutine. \<open>W_ReadDir\<close>, \<open>W_Fail\<close> and \<open>W_Loop\<close> belong to
  \<^verbatim>\<open>applyFilters\<close> (the loop keeps the entries it has not visited yet); \<open>W_Index\<close> is the
  entry of the anonymous goroutine of \<^verbatim>\<open>processImagesWithChannel\<close>. The body that treats one
  file is the same text in both: the \<^verbatim>\<open>switch\<close> (\<open>W_Switch\<close>), the save inside
  \<^verbatim>\<open>applyGrayscaleFilter\<close> or \<^verbatim>\<open>applyBlurFilter\<close> (\<open>W_Save\<close>), the error report
  (\<open>W_Print\<close>) and the send (\<open>W_Send\<close>). They carry the file name and the entries that
  remain; in the anonymous goroutine nothing remains, and \<open>W_Loop []\<close> is the end of the
  function body. \<open>W_Done\<close> is the deferred \<^verbatim>\<open>wg.Done()\<close>.
\<close>

datatype 'img wpc =
    W_ReadDir
  | W_Fail string
  | W_Loop "entry list"
  | W_Index nat
  | W_Switch string "entry list"
  | W_Save string 'img "entry list"
  | W_Print line string "entry list"
  | W_Send string "entry list"
  | W_Done
  | W_Exit

text \<open>Control points of the main goroutine and of the goroutine that closes the channel.\<close>

datatype mpc =
    M_Main
  | M_WaitGroup
  | M_Channel
  | M_Fail string
  | M_Spawn nat
  | M_Supervise
  | M_Range
  | M_Notify string
  | M_Exit

datatype spc = S_None | S_Wait | S_Close | S_Exit

record ('fs, 'img) state =
  mainpc :: mpc
  workers :: "'img wpc list"
  sup :: spc
  fileList :: "entry list"
  chan :: "string list"
  sent :: "string list"
  cap :: nat
  closed :: bool
  wg :: nat
  out :: "line list"
  calls :: "call list"
  fs :: 'fs
  crashed :: bool

datatype tid = Main | Worker nat | Supervisor

definition boot :: "'fs \<Rightarrow> ('fs, 'img) state" where
  "boot fs0 =
     \<lparr>mainpc = M_Main, workers = [], sup = S_None, fileList = [], chan = [], sent = [],
      cap = 0,
      closed = False, wg = 0, out = [], calls = [], fs = fs0, crashed = False\<rparr>"

text \<open>
  \<^verbatim>\<open>ch <- v\<close> on an open channel: a receiver that waits on the empty channel takes the
  value directly; otherwise the value goes to the buffer if there is room, and the sender
  blocks (\<open>None\<close>) if there is none. A send on a closed channel panics: that case is in
  \<open>step_worker\<close>. The field \<open>sent\<close> is the history of the channel: every value sent on
  it, in the order of the sends.
\<close>

definition send :: "string \<Rightarrow> ('fs, 'img) state \<Rightarrow> ('fs, 'img) state option" where
  "send v s =
     (if mainpc s = M_Range \<and> chan s = [] then
        Some (s\<lparr>mainpc := M_Notify v, sent := sent s @ [v]\<rparr>)
      else if length (chan s) < cap s then
        Some (s\<lparr>chan := chan s @ [v], sent := sent s @ [v]\<rparr>)
      else None)"

definition goto :: "nat \<Rightarrow> 'img wpc \<Rightarrow> ('fs, 'img) state \<Rightarrow> ('fs, 'img) state" where
  "goto i pc s = s\<lparr>workers := (workers s)[i := pc]\<rparr>"

definition failure :: "flags \<Rightarrow> string \<Rightarrow> string \<Rightarrow> line" where
  "failure c n e =
     (if filterName c = ''grayscale'' then GrayscaleError n e else BlurError n e)"

definition step_worker ::
  "('fs, 'img) world \<Rightarrow> flags \<Rightarrow> nat \<Rightarrow> ('fs, 'img) state \<Rightarrow> ('fs, 'img) state option"
where
  "step_worker w c i s =
     (if length (workers s) \<le> i then None
      else case workers s ! i of
        W_ReadDir \<Rightarrow>
          (case ReadDir w (fs s) (srcPath c) of
             Inl e \<Rightarrow>
               Some (goto i (W_Fail e) (s\<lparr>calls := calls s @ [ReadDirCall (srcPath c)]\<rparr>))
           | Inr fl \<Rightarrow>
               Some (goto i (W_Loop fl) (s\<lparr>calls := calls s @ [ReadDirCall (srcPath c)]\<rparr>)))
      | W_Fail e \<Rightarrow> Some (goto i W_Done (s\<lparr>out := out s @ [ReadDirError e]\<rparr>))
      | W_Loop [] \<Rightarrow> Some (goto i W_Done s)
      | W_Loop (f # rest) \<Rightarrow>
          Some (goto i (if IsDir f then W_Loop rest else W_Switch (Name f) rest) s)
      | W_Index k \<Rightarrow>
          (if length (fileList s) \<le> k then Some (s\<lparr>crashed := True\<rparr>)
           else if IsDir (fileList s ! k) then Some (goto i W_Done s)
           else Some (goto i (W_Switch (Name (fileList s ! k)) []) s))
      | W_Switch n rest \<Rightarrow>
          (if filterName c = ''grayscale'' then
             (case Open w (fs s) (Join w (srcPath c) n) of
                Inl e \<Rightarrow>
                  Some (goto i (W_Print (GrayscaleError n e) n rest)
                    (s\<lparr>calls := calls s @ [OpenCall (Join w (srcPath c) n)]\<rparr>))
              | Inr img \<Rightarrow>
                  Some (goto i (W_Save n (Grayscale w img) rest)
                    (s\<lparr>calls := calls s @ [OpenCall (Join w (srcPath c) n), GrayscaleCall]\<rparr>)))
           else if filterName c = ''blur'' then
             (case Open w (fs s) (Join w (srcPath c) n) of
                Inl e \<Rightarrow>
                  Some (goto i (W_Print (BlurError n e) n rest)
                    (s\<lparr>calls := calls s @ [OpenCall (Join w (srcPath c) n)]\<rparr>))
              | Inr img \<Rightarrow>
                  Some (goto i (W_Save n (Blur w img 5) rest)
                    (s\<lparr>calls := calls s @ [OpenCall (Join w (srcPath c) n), BlurCall 5]\<rparr>)))
           else Some (goto i (W_Print (InvalidFilter (filterName c)) n rest) s))
      | W_Save n img rest \<Rightarrow>
          (case Save w (fs s) img (Join w (destPath c) n) of
             (None, fs') \<Rightarrow>
               Some (goto i (W_Send n rest)
                 (s\<lparr>calls := calls s @ [SaveCall (Join w (destPath c) n)], fs := fs'\<rparr>))
           | (Some e, fs') \<Rightarrow>
               Some (goto i (W_Print (failure c n e) n rest)
                 (s\<lparr>calls := calls s @ [SaveCall (Join w (destPath c) n)], fs := fs'\<rparr>)))
      | W_Print l n rest \<Rightarrow> Some (goto i (W_Send n rest) (s\<lparr>out := out s @ [l]\<rparr>))
      | W_Send n rest \<Rightarrow>
          (if closed s then Some (s\<lparr>crashed := True\<rparr>)
           else case send n s of
             None \<Rightarrow> None
           | Some s' \<Rightarrow> Some (goto i (W_Loop rest) s'))
      | W_Done \<Rightarrow>
          (if wg s = 0 then Some (s\<lparr>crashed := True\<rparr>)
           else Some (goto i W_Exit (s\<lparr>wg := wg s - 1\<rparr>)))
      | W_Exit \<Rightarrow> None)"

definition step_main ::
  "('fs, 'img) world \<Rightarrow> flags \<Rightarrow> ('fs, 'img) state \<Rightarrow> ('fs, 'img) state option"
where
  "step_main w c s =
     (case mainpc s of
        M_Main \<Rightarrow>
          (if srcPath c = [] \<or> destPath c = [] \<or> filterName c = [] \<or> task c = [] then
             Some (s\<lparr>out := out s @ [Usage], mainpc := M_Exit\<rparr>)
           else if task c = ''waitgrp'' then Some (s\<lparr>mainpc := M_WaitGroup\<rparr>)
           else if task c = ''channel'' then Some (s\<lparr>mainpc := M_Channel\<rparr>)
           else Some (s\<lparr>out := out s @ [InvalidTask (task c)], mainpc := M_Exit\<rparr>))
      | M_WaitGroup \<Rightarrow>
          Some (s\<lparr>chan := [], cap := 0, wg := wg s + 1, workers := workers s @ [W_ReadDir],
                  mainpc := M_Supervise\<rparr>)
      | M_Channel \<Rightarrow>
          (case ReadDir w (fs s) (srcPath c) of
             Inl e \<Rightarrow>
               Some (s\<lparr>calls := calls s @ [ReadDirCall (srcPath c)], mainpc := M_Fail e\<rparr>)
           | Inr fl \<Rightarrow>
               Some (s\<lparr>calls := calls s @ [ReadDirCall (srcPath c)], fileList := fl,
                       chan := [], cap := length fl, mainpc := M_Spawn 0\<rparr>))
      | M_Fail e \<Rightarrow> Some (s\<lparr>out := out s @ [ReadDirError e], mainpc := M_Exit\<rparr>)
      | M_Spawn k \<Rightarrow>
          (if k < length (fileList s) then
             Some (s\<lparr>wg := wg s + 1, workers := workers s @ [W_Index k],
                     mainpc := M_Spawn (k + 1)\<rparr>)
           else Some (s\<lparr>mainpc := M_Supervise\<rparr>))
      | M_Supervise \<Rightarrow> Some (s\<lparr>sup := S_Wait, mainpc := M_Range\<rparr>)
      | M_Range \<Rightarrow>
          (case chan s of
             v # q \<Rightarrow> Some (s\<lparr>chan := q, mainpc := M_Notify v\<rparr>)
           | [] \<Rightarrow> if closed s then Some (s\<lparr>mainpc := M_Exit\<rparr>) else None)
      | M_Notify n \<Rightarrow> Some (s\<lparr>out := out s @ [Finished n], mainpc := M_Range\<rparr>)
      | M_Exit \<Rightarrow> None)"

definition step_sup :: "('fs, 'img) state \<Rightarrow> ('fs, 'img) state option" where
  "step_sup s =
     (case sup s of
        S_None \<Rightarrow> None
      | S_Wait \<Rightarrow> if wg s = 0 then Some (s\<lparr>sup := S_Close\<rparr>) else None
      | S_Close \<Rightarrow>
          if closed s then Some (s\<lparr>crashed := True\<rparr>)
          else Some (s\<lparr>closed := True, sup := S_Exit\<rparr>)
      | S_Exit \<Rightarrow> None)"

text \<open>
  One step of the goroutine \<open>t\<close>; \<open>None\<close> when it is blocked, has returned, or does not
  exist. The process ends when \<^verbatim>\<open>main\<close> returns or a goroutine panics.
\<close>

definition step ::
  "('fs, 'img) world \<Rightarrow> flags \<Rightarrow> tid \<Rightarrow> ('fs, 'img) state \<Rightarrow> ('fs, 'img) state option"
where
  "step w c t s =
     (if crashed s \<or> mainpc s = M_Exit then None
      else case t of
        Main \<Rightarrow> step_main w c s
      | Worker i \<Rightarrow> step_worker w c i s
      | Supervisor \<Rightarrow> step_sup s)"

fun run ::
  "('fs, 'img) world \<Rightarrow> flags \<Rightarrow> tid list \<Rightarrow> ('fs, 'img) state \<Rightarrow> ('fs, 'img) state option"
where
  "run w c [] s = Some s"
| "run w c (t # ts) s = (case step w c t s of None \<Rightarrow> None | Some s' \<Rightarrow> run w c ts s')"

text \<open>
  The three entry points, each run under a schedule: the list of the goroutines that take
  the successive steps. The result is \<open>None\<close> when the schedule asks a step of a goroutine
  that cannot take one.
\<close>

definition main ::
  "('fs, 'img) world \<Rightarrow> flags \<Rightarrow> 'fs \<Rightarrow> tid list \<Rightarrow> ('fs, 'img) state option"
where
  "main w c fs0 sched = run w c sched (boot fs0)"

definition processImagesWithWaitGroup ::
  "('fs, 'img) world \<Rightarrow> flags \<Rightarrow> 'fs \<Rightarrow> tid list \<Rightarrow> ('fs, 'img) state option"
where
  "processImagesWithWaitGroup w c fs0 sched = run w c sched ((boot fs0)\<lparr>mainpc := M_WaitGroup\<rparr>)"

definition processImagesWithChannel ::
  "('fs, 'img) world \<Rightarrow> flags \<Rightarrow> 'fs \<Rightarrow> tid list \<Rightarrow> ('fs, 'img) state option"
where
  "processImagesWithChannel w c fs0 sched = run w c sched ((boot fs0)\<lparr>mainpc := M_Channel\<rparr>)"

text \<open>A goroutine is enabled when it can take a step; the process is stuck when none is.\<close>

definition enabled :: "('fs, 'img) world \<Rightarrow> flags \<Rightarrow> ('fs, 'img) state \<Rightarrow> tid \<Rightarrow> bool" where
  "enabled w c s t = (step w c t s \<noteq> None)"

definition exit_status :: "('fs, 'img) state \<Rightarrow> nat option" where
  "exit_status s = (if crashed s then Some 2 else if mainpc s = M_Exit then Some 0 else None)"


section \<open>Quantities of a state\<close>

definition names :: "entry list \<Rightarrow> string list" where
  "names es = map Name (filter (\<lambda>e. \<not> IsDir e) es)"

definition batch :: "('fs, 'img) world \<Rightarrow> flags \<Rightarrow> 'fs \<Rightarrow> entry list" where
  "batch w c fs0 = (case ReadDir w fs0 (srcPath c) of Inl e \<Rightarrow> [] | Inr es \<Rightarrow> es)"

fun notified :: "line list \<Rightarrow> string list" where
  "notified [] = []"
| "notified (Finished n # ls) = n # notified ls"
| "notified (l # ls) = notified ls"

fun owed :: "entry list \<Rightarrow> 'img wpc \<Rightarrow> string list" where
  "owed es W_ReadDir = names es"
| "owed es (W_Fail e) = []"
| "owed es (W_Loop rest) = names rest"
| "owed es (W_Index k) = names (take 1 (drop k es))"
| "owed es (W_Switch n rest) = n # names rest"
| "owed es (W_Save n img rest) = n # names rest"
| "owed es (W_Print l n rest) = n # names rest"
| "owed es (W_Send n rest) = n # names rest"
| "owed es W_Done = []"
| "owed es W_Exit = []"

fun held :: "mpc \<Rightarrow> string list" where
  "held (M_Notify n) = [n]"
| "held pc = []"

fun unspawned :: "entry list \<Rightarrow> mpc \<Rightarrow> string list" where
  "unspawned es M_WaitGroup = names es"
| "unspawned es M_Channel = names es"
| "unspawned es (M_Spawn k) = names (drop k es)"
| "unspawned es pc = []"

fun live :: "'img wpc \<Rightarrow> nat" where
  "live W_Exit = 0"
| "live pc = 1"

definition exited :: "'img wpc list \<Rightarrow> bool" where
  "exited ws = (\<forall>pc\<in>set ws. pc = W_Exit)"

definition inv_main :: "('fs, 'img) world \<Rightarrow> flags \<Rightarrow> 'fs \<Rightarrow> ('fs, 'img) state \<Rightarrow> bool" where
  "inv_main w c fs0 s =
     (case mainpc s of
        M_Main \<Rightarrow> False
      | M_WaitGroup \<Rightarrow> workers s = [] \<and> chan s = [] \<and> fs s = fs0 \<and> sup s = S_None \<and> wg s = 0
      | M_Channel \<Rightarrow> workers s = [] \<and> chan s = [] \<and> fs s = fs0 \<and> sup s = S_None \<and> wg s = 0
      | M_Fail e \<Rightarrow>
          workers s = [] \<and> chan s = [] \<and> sup s = S_None \<and> ReadDir w fs0 (srcPath c) = Inl e
      | M_Spawn k \<Rightarrow>
          k \<le> length (fileList s) \<and> sup s = S_None \<and> W_ReadDir \<notin> set (workers s) \<and>
          fileList s = batch w c fs0 \<and> cap s = length (fileList s)
      | M_Supervise \<Rightarrow> sup s = S_None
      | M_Range \<Rightarrow> sup s \<noteq> S_None
      | M_Notify n \<Rightarrow> sup s \<noteq> S_None
      | M_Exit \<Rightarrow>
          chan s = [] \<and>
          (closed s \<or> workers s = [] \<and> (\<exists>e. ReadDir w fs0 (srcPath c) = Inl e)))"

definition inv_sup :: "('fs, 'img) state \<Rightarrow> bool" where
  "inv_sup s =
     (case sup s of
        S_None \<Rightarrow> \<not> closed s
      | S_Wait \<Rightarrow> \<not> closed s
      | S_Close \<Rightarrow> \<not> closed s \<and> exited (workers s)
      | S_Exit \<Rightarrow> closed s \<and> exited (workers s))"

definition inv_workers :: "('fs, 'img) world \<Rightarrow> flags \<Rightarrow> 'fs \<Rightarrow> ('fs, 'img) state \<Rightarrow> bool" where
  "inv_workers w c fs0 s =
     ((W_ReadDir \<in> set (workers s) \<longrightarrow> workers s = [W_ReadDir] \<and> fs s = fs0) \<and>
      (\<forall>k. W_Index k \<in> set (workers s) \<longrightarrow>
         k < length (fileList s) \<and> fileList s = batch w c fs0) \<and>
      (\<forall>l n rest. W_Print l n rest \<in> set (workers s) \<longrightarrow> notified [l] = []))"

definition inv_count :: "('fs, 'img) world \<Rightarrow> flags \<Rightarrow> 'fs \<Rightarrow> ('fs, 'img) state \<Rightarrow> bool" where
  "inv_count w c fs0 s =
     (wg s = (\<Sum>pc\<leftarrow>workers s. live pc) \<and> length (chan s) \<le> cap s \<and>
      (cap s = 0 \<or> cap s = length (batch w c fs0)))"

definition pending :: "entry list \<Rightarrow> ('fs, 'img) state \<Rightarrow> string multiset" where
  "pending es s =
     mset (held (mainpc s)) + mset (chan s) + (\<Sum>pc\<leftarrow>workers s. mset (owed es pc)) +
     mset (unspawned es (mainpc s))"

definition inv_cons :: "('fs, 'img) world \<Rightarrow> flags \<Rightarrow> 'fs \<Rightarrow> ('fs, 'img) state \<Rightarrow> bool" where
  "inv_cons w c fs0 s =
     (mset (notified (out s)) + pending (batch w c fs0) s = mset (names (batch w c fs0)) \<and>
      sent s = notified (out s) @ held (mainpc s) @ chan s)"

definition inv :: "('fs, 'img) world \<Rightarrow> flags \<Rightarrow> 'fs \<Rightarrow> ('fs, 'img) state \<Rightarrow> bool" where
  "inv w c fs0 s =
     (\<not> crashed s \<and> inv_main w c fs0 s \<and> inv_sup s \<and> inv_workers w c fs0 s \<and>
      inv_count w c fs0 s \<and> inv_cons w c fs0 s)"

fun cost_w :: "nat \<Rightarrow> 'img wpc \<Rightarrow> nat" where
  "cost_w n W_ReadDir = 7 * n + 3"
| "cost_w n (W_Fail e) = 2"
| "cost_w n (W_Loop rest) = 7 * length rest + 2"
| "cost_w n (W_Index k) = 9"
| "cost_w n (W_Switch f rest) = 7 * length rest + 8"
| "cost_w n (W_Save f img rest) = 7 * length rest + 7"
| "cost_w n (W_Print l f rest) = 7 * length rest + 6"
| "cost_w n (W_Send f rest) = 7 * length rest + 5"
| "cost_w n W_Done = 1"
| "cost_w n W_Exit = 0"

fun cost_m :: "nat \<Rightarrow> mpc \<Rightarrow> nat" where
  "cost_m n M_Main = 10 * n + 9"
| "cost_m n M_WaitGroup = 7 * n + 8"
| "cost_m n M_Channel = 10 * n + 6"
| "cost_m n (M_Fail e) = 1"
| "cost_m n (M_Spawn k) = 10 * (n - k) + 5"
| "cost_m n M_Supervise = 4"
| "cost_m n M_Range = 1"
| "cost_m n (M_Notify f) = 2"
| "cost_m n M_Exit = 0"

fun cost_s :: "spc \<Rightarrow> nat" where
  "cost_s S_None = 0"
| "cost_s S_Wait = 2"
| "cost_s S_Close = 1"
| "cost_s S_Exit = 0"

definition cost :: "nat \<Rightarrow> ('fs, 'img) state \<Rightarrow> nat" where
  "cost n s =
     cost_m n (mainpc s) + (\<Sum>pc\<leftarrow>workers s. cost_w n pc) + 2 * length (chan s) + cost_s (sup s)"

definition example_dir :: "entry list" where
  "example_dir =
     [\<lparr>Name = ''a.png'', IsDir = False\<rparr>, \<lparr>Name = ''sub'', IsDir = True\<rparr>,
      \<lparr>Name = ''b.txt'', IsDir = False\<rparr>]"

definition example_world :: "(string list, nat) world" where
  "example_world =
     \<lparr>ReadDir = (\<lambda>fs p. if p = ''in'' then Inr example_dir else Inl ''no such directory''),
      Join = (\<lambda>d n. d @ ''/'' @ n),
      Open = (\<lambda>fs p. if p = ''in/a.png'' then Inr 1 else Inl ''unknown format''),
      Grayscale = (\<lambda>i. i + 10),
      Blur = (\<lambda>i r. i + 20),
      Save = (\<lambda>fs i p. (None, p # fs))\<rparr>"

definition example_flags :: flags where
  "example_flags = \<lparr>srcPath = ''in'', destPath = ''out'', filterName = ''blur'', task = ''waitgrp''\<rparr>"

definition waitgrp_schedule :: "tid list" where
  "waitgrp_schedule =
     [Main, Worker 0, Worker 0, Worker 0, Worker 0, Main, Worker 0, Worker 0,
      Worker 0, Worker 0, Worker 0, Main, Worker 0, Worker 0, Worker 0,
      Supervisor, Supervisor, Main, Main]"

definition channel_schedule :: "tid list" where
  "channel_schedule =
     [Main, Main, Main, Main, Main, Main, Worker 2, Worker 2, Worker 2,
      Worker 2, Main, Worker 2, Worker 2, Worker 0, Worker 0, Worker 0,
      Worker 0, Main, Worker 0, Worker 0, Worker 1, Worker 1, Supervisor,
      Supervisor, Main]"

definition inv_channel :: "('fs, 'img) world \<Rightarrow> flags \<Rightarrow> 'fs \<Rightarrow> ('fs, 'img) state \<Rightarrow> bool" where
  "inv_channel w c fs0 s =
     (case mainpc s of
        M_Main \<Rightarrow> False
      | M_WaitGroup \<Rightarrow> False
      | M_Channel \<Rightarrow> True
      | M_Fail e \<Rightarrow> True
      | M_Spawn k \<Rightarrow>
          ReadDir w fs0 (srcPath c) = Inr (fileList s) \<and> cap s = length (fileList s) \<and>
          length (workers s) = k
      | M_Exit \<Rightarrow>
          workers s = [] \<and> (\<exists>e. ReadDir w fs0 (srcPath c) = Inl e) \<or>
          ReadDir w fs0 (srcPath c) = Inr (fileList s) \<and> cap s = length (fileList s) \<and>
          length (workers s) = length (fileList s)
      | _ \<Rightarrow>
          ReadDir w fs0 (srcPath c) = Inr (fileList s) \<and> cap s = length (fileList s) \<and>
          length (workers s) = length (fileList s))"

definition inv_waitgrp :: "('fs, 'img) world \<Rightarrow> flags \<Rightarrow> 'fs \<Rightarrow> ('fs, 'img) state \<Rightarrow> bool" where
  "inv_waitgrp w c fs0 s =
     (length (workers s) \<le> 1 \<and> cap s = 0 \<and>
      (mainpc s = M_WaitGroup \<or> mainpc s = M_Supervise \<or> mainpc s = M_Range \<or>
       (\<exists>n. mainpc s = M_Notify n) \<or> mainpc s = M_Exit) \<and>
      sent s @ concat (map (owed (batch w c fs0)) (workers s)) @
        unspawned (batch w c fs0) (mainpc s) = names (batch w c fs0))"

definition waitgrp_final :: "(string list, nat) state" where
  "waitgrp_final =
     \<lparr>mainpc = M_Exit, workers = [W_Exit], sup = S_Exit, fileList = [],
      chan = [], sent = [''a.png'', ''b.txt''], cap = 0, closed = True, wg = 0,
      out = [BlurError ''b.txt'' ''unknown format'', Finished ''a.png'', Finished ''b.txt''],
      calls = [ReadDirCall ''in'', OpenCall ''in/a.png'', BlurCall 5, SaveCall ''out/a.png'',
        OpenCall ''in/b.txt''],
      fs = [''out/a.png''], crashed = False\<rparr>"

definition channel_final :: "(string list, nat) state" where
  "channel_final =
     \<lparr>mainpc = M_Exit, workers = [W_Exit, W_Exit, W_Exit], sup = S_Exit,
      fileList = example_dir,
      chan = [], sent = [''b.txt'', ''a.png''], cap = 3, closed = True, wg = 0,
      out = [BlurError ''b.txt'' ''unknown format'', Finished ''b.txt'', Finished ''a.png''],
      calls = [ReadDirCall ''in'', OpenCall ''in/b.txt'', OpenCall ''in/a.png'', BlurCall 5,
        SaveCall ''out/a.png''],
      fs = [''out/a.png''], crashed = False\<rparr>"

fun call_ok :: "('fs, 'img) world \<Rightarrow> flags \<Rightarrow> entry list \<Rightarrow> call \<Rightarrow> bool" where
  "call_ok w c es (ReadDirCall p) = (p = srcPath c)"
| "call_ok w c es (OpenCall p) = (p \<in> Join w (srcPath c) ` set (names es))"
| "call_ok w c es GrayscaleCall = (filterName c = ''grayscale'')"
| "call_ok w c es (BlurCall r) = (r = 5 \<and> filterName c = ''blur'')"
| "call_ok w c es (SaveCall p) = (p \<in> Join w (destPath c) ` set (names es))"


definition no_flags :: flags where
  "no_flags = \<lparr>srcPath = ''in'', destPath = [], filterName = ''blur'', task = ''channel''\<rparr>"

definition inv_fail :: "string \<Rightarrow> ('fs, 'img) state \<Rightarrow> bool" where
  "inv_fail e s =
     (sent s = [] \<and>
      (mainpc s = M_WaitGroup \<and> workers s = [] \<and> out s = [] \<or>
       (mainpc s = M_Supervise \<or> mainpc s = M_Range \<or> mainpc s = M_Exit) \<and>
       ((workers s = [W_ReadDir] \<or> workers s = [W_Fail e]) \<and> out s = [] \<or>
        (workers s = [W_Done] \<or> workers s = [W_Exit]) \<and> out s = [ReadDirError e])))"

definition missing_flags :: flags where
  "missing_flags =
     \<lparr>srcPath = ''nowhere'', destPath = ''out'', filterName = ''blur'', task = ''waitgrp''\<rparr>"

fun due :: "flags \<Rightarrow> entry list \<Rightarrow> 'img wpc \<Rightarrow> nat" where
  "due c es W_ReadDir = length (names es)"
| "due c es (W_Fail e) = 0"
| "due c es (W_Loop rest) = length (names rest)"
| "due c es (W_Index k) = length (names (take 1 (drop k es)))"
| "due c es (W_Switch n rest) = Suc (length (names rest))"
| "due c es (W_Save n img rest) = length (names rest)"
| "due c es (W_Print l n rest) =
     (if l = InvalidFilter (filterName c) then 1 else 0) + length (names rest)"
| "due c es (W_Send n rest) = length (names rest)"
| "due c es W_Done = 0"
| "due c es W_Exit = 0"

definition reports :: "flags \<Rightarrow> line list \<Rightarrow> nat" where
  "reports c ls = length [l\<leftarrow>ls. l = InvalidFilter (filterName c)]"

definition inv_bad :: "('fs, 'img) world \<Rightarrow> flags \<Rightarrow> 'fs \<Rightarrow> ('fs, 'img) state \<Rightarrow> bool" where
  "inv_bad w c fs0 s =
     (set (calls s) \<subseteq> {ReadDirCall (srcPath c)} \<and> fs s = fs0 \<and>
      (\<forall>n img rest. W_Save n img rest \<notin> set (workers s)) \<and>
      reports c (out s) + (\<Sum>pc\<leftarrow>workers s. due c (batch w c fs0) pc) +
        length (unspawned (batch w c fs0) (mainpc s)) = length (names (batch w c fs0)))"

definition sepia_flags :: flags where
  "sepia_flags =
     \<lparr>srcPath = ''in'', destPath = ''out'', filterName = ''sepia'', task = ''waitgrp''\<rparr>"

fun saved :: "call list \<Rightarrow> string list" where
  "saved [] = []"
| "saved (SaveCall p # cs) = p # saved cs"
| "saved (x # cs) = saved cs"




section \<open>The invariant and its preservation\<close>

lemma sum_list_upd:
  fixes f :: "'a \<Rightarrow> 'b::comm_monoid_add"
  shows "i < length xs \<Longrightarrow> f (xs ! i) = d + f y \<Longrightarrow>
    (\<Sum>x\<leftarrow>xs. f x) = d + (\<Sum>x\<leftarrow>xs[i := y]. f x)"
proof (induction xs arbitrary: i)
  case Nil
  then show ?case by simp
next
  case (Cons x xs)
  show ?case
  proof (cases i)
    case 0
    with Cons.prems show ?thesis by (simp add: ac_simps)
  next
    case (Suc j)
    with Cons.prems have "(\<Sum>x\<leftarrow>xs. f x) = d + (\<Sum>x\<leftarrow>xs[j := y]. f x)"
      by (intro Cons.IH) simp_all
    with Suc show ?thesis by (simp add: ac_simps)
  qed
qed

lemma notified_append [simp]: "notified (xs @ ys) = notified xs @ notified ys"
  by (induction xs rule: notified.induct) simp_all

lemma exited_live: "exited ws \<longleftrightarrow> (\<Sum>pc\<leftarrow>ws. live pc) = 0"
  unfolding exited_def
  apply (induction ws) apply simp
  subgoal for a ws by (cases a) auto
  done

lemma inv_boot_waitgrp: "inv w c fs0 ((boot fs0)\<lparr>mainpc := M_WaitGroup\<rparr>)"
  by (simp add: inv_def boot_def inv_main_def inv_sup_def inv_workers_def inv_count_def inv_cons_def pending_def)

lemma inv_boot_channel: "inv w c fs0 ((boot fs0)\<lparr>mainpc := M_Channel\<rparr>)"
  by (simp add: inv_def boot_def inv_main_def inv_sup_def inv_workers_def inv_count_def inv_cons_def pending_def)

lemma names_simps [simp]:
  "names [] = []"
  "names (e # es) = (if IsDir e then names es else Name e # names es)"
  by (simp_all add: names_def)

lemma drop_names: "k < length es \<Longrightarrow> names (drop k es) = names (take 1 (drop k es)) @ names (drop (Suc k) es)"
  by (simp add: names_def take_Suc_conv_app_nth flip: Cons_nth_drop_Suc)

lemmas inv_defs = inv_def inv_main_def inv_sup_def inv_workers_def inv_count_def inv_cons_def pending_def

lemma step_worker_cases:
  assumes "step_worker w c i s = Some s'"
  obtains
    (ReadDirFail) e where "i < length (workers s)" "workers s ! i = W_ReadDir"
      "ReadDir w (fs s) (srcPath c) = Inl e"
      "s' = goto i (W_Fail e) (s\<lparr>calls := calls s @ [ReadDirCall (srcPath c)]\<rparr>)"
  | (ReadDirOk) fl where "i < length (workers s)" "workers s ! i = W_ReadDir"
      "ReadDir w (fs s) (srcPath c) = Inr fl"
      "s' = goto i (W_Loop fl) (s\<lparr>calls := calls s @ [ReadDirCall (srcPath c)]\<rparr>)"
  | (Fail) e where "i < length (workers s)" "workers s ! i = W_Fail e"
      "s' = goto i W_Done (s\<lparr>out := out s @ [ReadDirError e]\<rparr>)"
  | (LoopEnd) "i < length (workers s)" "workers s ! i = W_Loop []" "s' = goto i W_Done s"
  | (LoopDir) f rest where "i < length (workers s)" "workers s ! i = W_Loop (f # rest)" "IsDir f"
      "s' = goto i (W_Loop rest) s"
  | (LoopFile) f rest where "i < length (workers s)" "workers s ! i = W_Loop (f # rest)" "\<not> IsDir f"
      "s' = goto i (W_Switch (Name f) rest) s"
  | (IndexRange) k where "i < length (workers s)" "workers s ! i = W_Index k" "length (fileList s) \<le> k"
      "s' = s\<lparr>crashed := True\<rparr>"
  | (IndexDir) k where "i < length (workers s)" "workers s ! i = W_Index k" "k < length (fileList s)"
      "IsDir (fileList s ! k)" "s' = goto i W_Done s"
  | (IndexFile) k where "i < length (workers s)" "workers s ! i = W_Index k" "k < length (fileList s)"
      "\<not> IsDir (fileList s ! k)" "s' = goto i (W_Switch (Name (fileList s ! k)) []) s"
  | (OpenFail) n rest e where "i < length (workers s)" "workers s ! i = W_Switch n rest"
      "filterName c = ''grayscale'' \<or> filterName c = ''blur''"
      "Open w (fs s) (Join w (srcPath c) n) = Inl e"
      "s' = goto i (W_Print (failure c n e) n rest)
         (s\<lparr>calls := calls s @ [OpenCall (Join w (srcPath c) n)]\<rparr>)"
  | (OpenGray) n rest img where "i < length (workers s)" "workers s ! i = W_Switch n rest"
      "filterName c = ''grayscale''"
      "Open w (fs s) (Join w (srcPath c) n) = Inr img"
      "s' = goto i (W_Save n (Grayscale w img) rest)
         (s\<lparr>calls := calls s @ [OpenCall (Join w (srcPath c) n), GrayscaleCall]\<rparr>)"
  | (OpenBlur) n rest img where "i < length (workers s)" "workers s ! i = W_Switch n rest"
      "filterName c = ''blur''"
      "Open w (fs s) (Join w (srcPath c) n) = Inr img"
      "s' = goto i (W_Save n (Blur w img 5) rest)
         (s\<lparr>calls := calls s @ [OpenCall (Join w (srcPath c) n), BlurCall 5]\<rparr>)"
  | (BadFilter) n rest where "i < length (workers s)" "workers s ! i = W_Switch n rest"
      "filterName c \<noteq> ''grayscale''" "filterName c \<noteq> ''blur''"
      "s' = goto i (W_Print (InvalidFilter (filterName c)) n rest) s"
  | (SaveOk) n img rest fs' where "i < length (workers s)" "workers s ! i = W_Save n img rest"
      "Save w (fs s) img (Join w (destPath c) n) = (None, fs')"
      "s' = goto i (W_Send n rest)
         (s\<lparr>calls := calls s @ [SaveCall (Join w (destPath c) n)], fs := fs'\<rparr>)"
  | (SaveFail) n img rest e fs' where "i < length (workers s)" "workers s ! i = W_Save n img rest"
      "Save w (fs s) img (Join w (destPath c) n) = (Some e, fs')"
      "s' = goto i (W_Print (failure c n e) n rest)
         (s\<lparr>calls := calls s @ [SaveCall (Join w (destPath c) n)], fs := fs'\<rparr>)"
  | (Print) l n rest where "i < length (workers s)" "workers s ! i = W_Print l n rest"
      "s' = goto i (W_Send n rest) (s\<lparr>out := out s @ [l]\<rparr>)"
  | (SendClosed) n rest where "i < length (workers s)" "workers s ! i = W_Send n rest" "closed s"
      "s' = s\<lparr>crashed := True\<rparr>"
  | (SendHandoff) n rest where "i < length (workers s)" "workers s ! i = W_Send n rest" "\<not> closed s"
      "mainpc s = M_Range" "chan s = []"
      "s' = goto i (W_Loop rest) (s\<lparr>mainpc := M_Notify n, sent := sent s @ [n]\<rparr>)"
  | (SendBuffer) n rest where "i < length (workers s)" "workers s ! i = W_Send n rest" "\<not> closed s"
      "\<not> (mainpc s = M_Range \<and> chan s = [])" "length (chan s) < cap s"
      "s' = goto i (W_Loop rest) (s\<lparr>chan := chan s @ [n], sent := sent s @ [n]\<rparr>)"
  | (DonePanic) "i < length (workers s)" "workers s ! i = W_Done" "wg s = 0" "s' = s\<lparr>crashed := True\<rparr>"
  | (Done) "i < length (workers s)" "workers s ! i = W_Done" "0 < wg s"
      "s' = goto i W_Exit (s\<lparr>wg := wg s - 1\<rparr>)"
proof -
  from assms have len: "i < length (workers s)"
    by (simp add: step_worker_def split: if_splits)
  show thesis
  proof (cases "workers s ! i")
    case W_ReadDir
    with assms len ReadDirFail ReadDirOk show thesis
      by (auto simp: step_worker_def split: sum.splits)
  next
    case (W_Fail e)
    with assms len Fail show thesis by (auto simp: step_worker_def)
  next
    case (W_Loop rest)
    with assms len LoopEnd LoopDir LoopFile show thesis
      by (cases rest) (auto simp: step_worker_def split: if_splits)
  next
    case (W_Index k)
    with assms len IndexRange IndexDir IndexFile show thesis
      by (auto simp: step_worker_def split: if_splits)
  next
    case (W_Switch n rest)
    with assms len OpenFail OpenGray OpenBlur BadFilter show thesis
      by (auto simp: step_worker_def failure_def split: if_splits sum.splits)
  next
    case (W_Save n img rest)
    with assms len SaveOk SaveFail show thesis
      by (auto simp: step_worker_def split: prod.splits option.splits)
  next
    case (W_Print l n rest)
    with assms len Print show thesis by (auto simp: step_worker_def)
  next
    case (W_Send n rest)
    with assms len SendClosed SendHandoff SendBuffer show thesis
      by (auto simp: step_worker_def send_def split: if_splits)
  next
    case W_Done
    with assms len DonePanic Done show thesis
      by (auto simp: step_worker_def split: if_splits)
  next
    case W_Exit
    with assms len show thesis by (simp add: step_worker_def)
  qed
qed

lemma step_main_cases:
  assumes "step_main w c s = Some s'"
  obtains
    (Usage) "mainpc s = M_Main"
      "srcPath c = [] \<or> destPath c = [] \<or> filterName c = [] \<or> task c = []"
      "s' = s\<lparr>out := out s @ [Usage], mainpc := M_Exit\<rparr>"
  | (ToWaitGroup) "mainpc s = M_Main" "s' = s\<lparr>mainpc := M_WaitGroup\<rparr>"
  | (ToChannel) "mainpc s = M_Main" "s' = s\<lparr>mainpc := M_Channel\<rparr>"
  | (BadTask) "mainpc s = M_Main"
      "s' = s\<lparr>out := out s @ [InvalidTask (task c)], mainpc := M_Exit\<rparr>"
  | (WaitGroup) "mainpc s = M_WaitGroup"
      "s' = s\<lparr>chan := [], cap := 0, wg := wg s + 1, workers := workers s @ [W_ReadDir],
             mainpc := M_Supervise\<rparr>"
  | (ChannelFail) e where "mainpc s = M_Channel" "ReadDir w (fs s) (srcPath c) = Inl e"
      "s' = s\<lparr>calls := calls s @ [ReadDirCall (srcPath c)], mainpc := M_Fail e\<rparr>"
  | (ChannelOk) fl where "mainpc s = M_Channel" "ReadDir w (fs s) (srcPath c) = Inr fl"
      "s' = s\<lparr>calls := calls s @ [ReadDirCall (srcPath c)], fileList := fl,
             chan := [], cap := length fl, mainpc := M_Spawn 0\<rparr>"
  | (Fail) e where "mainpc s = M_Fail e"
      "s' = s\<lparr>out := out s @ [ReadDirError e], mainpc := M_Exit\<rparr>"
  | (Spawn) k where "mainpc s = M_Spawn k" "k < length (fileList s)"
      "s' = s\<lparr>wg := wg s + 1, workers := workers s @ [W_Index k], mainpc := M_Spawn (k + 1)\<rparr>"
  | (SpawnEnd) k where "mainpc s = M_Spawn k" "length (fileList s) \<le> k"
      "s' = s\<lparr>mainpc := M_Supervise\<rparr>"
  | (Supervise) "mainpc s = M_Supervise" "s' = s\<lparr>sup := S_Wait, mainpc := M_Range\<rparr>"
  | (Receive) v q where "mainpc s = M_Range" "chan s = v # q"
      "s' = s\<lparr>chan := q, mainpc := M_Notify v\<rparr>"
  | (RangeEnd) "mainpc s = M_Range" "chan s = []" "closed s" "s' = s\<lparr>mainpc := M_Exit\<rparr>"
  | (Notify) n where "mainpc s = M_Notify n"
      "s' = s\<lparr>out := out s @ [Finished n], mainpc := M_Range\<rparr>"
proof (cases "mainpc s")
  case M_Main
  with assms Usage ToWaitGroup ToChannel BadTask show thesis
    by (simp add: step_main_def split: if_splits)
next
  case M_WaitGroup
  with assms WaitGroup show thesis by (simp add: step_main_def)
next
  case M_Channel
  with assms ChannelFail ChannelOk show thesis
    by (simp add: step_main_def split: sum.splits)
next
  case (M_Fail e)
  with assms Fail show thesis by (simp add: step_main_def)
next
  case (M_Spawn k)
  with assms Spawn SpawnEnd show thesis by (simp add: step_main_def split: if_splits)
next
  case M_Supervise
  with assms Supervise show thesis by (simp add: step_main_def)
next
  case M_Range
  with assms Receive RangeEnd show thesis
    by (simp add: step_main_def split: list.splits if_splits)
next
  case (M_Notify n)
  with assms Notify show thesis by (simp add: step_main_def)
next
  case M_Exit
  with assms show thesis by (simp add: step_main_def)
qed

lemma step_sup_cases:
  assumes "step_sup s = Some s'"
  obtains
    (Wait) "sup s = S_Wait" "wg s = 0" "s' = s\<lparr>sup := S_Close\<rparr>"
  | (ClosePanic) "sup s = S_Close" "closed s" "s' = s\<lparr>crashed := True\<rparr>"
  | (Close) "sup s = S_Close" "\<not> closed s" "s' = s\<lparr>closed := True, sup := S_Exit\<rparr>"
  using assms unfolding step_sup_def
  by (cases "sup s") (auto split: if_splits)

lemma step_cases:
  assumes "step w c t s = Some s'"
  obtains
    (Main) "\<not> crashed s" "mainpc s \<noteq> M_Exit" "t = Main" "step_main w c s = Some s'"
  | (Worker) i where "\<not> crashed s" "mainpc s \<noteq> M_Exit" "t = Worker i"
      "step_worker w c i s = Some s'"
  | (Supervisor) "\<not> crashed s" "mainpc s \<noteq> M_Exit" "t = Supervisor" "step_sup s = Some s'"
  using assms unfolding step_def
  by (cases t) (auto split: if_splits)

lemma sum_list_split:
  fixes f :: "'a \<Rightarrow> 'b::comm_monoid_add"
  assumes "i < length xs"
  shows "\<exists>r. (\<Sum>x\<leftarrow>xs. f x) = f (xs ! i) + r \<and> (\<forall>y. (\<Sum>x\<leftarrow>xs[i := y]. f x) = f y + r)"
proof (intro exI conjI allI)
  let ?r = "(\<Sum>x\<leftarrow>take i xs. f x) + (\<Sum>x\<leftarrow>drop (Suc i) xs. f x)"
  have "(\<Sum>x\<leftarrow>xs. f x) = (\<Sum>x\<leftarrow>take i xs @ xs ! i # drop (Suc i) xs. f x)"
    using assms by (simp add: id_take_nth_drop [symmetric])
  then show "(\<Sum>x\<leftarrow>xs. f x) = f (xs ! i) + ?r"
    by (simp add: ac_simps)
  show "(\<Sum>x\<leftarrow>xs[i := y]. f x) = f y + ?r" for y
    using assms by (simp add: upd_conv_take_nth_drop ac_simps)
qed

lemma live_eq: "live pc = (if pc = W_Exit then 0 else 1)"
  by (cases pc) simp_all

lemma exited_nth: "exited ws \<Longrightarrow> i < length ws \<Longrightarrow> ws ! i = W_Exit"
  by (simp add: exited_def)

lemma exited_upd: "exited ws \<Longrightarrow> exited (ws[i := W_Exit])"
  unfolding exited_def by (auto dest: set_update_subset_insert [THEN subsetD])

lemma mem_upd: "x \<in> set (xs[i := y]) \<Longrightarrow> x = y \<or> x \<in> set xs"
  using set_update_subset_insert [of xs i y] by auto

lemma no_readdir_upd:
  assumes "W_ReadDir \<in> set ws \<longrightarrow> ws = [W_ReadDir]" and "i < length ws" and "pc \<noteq> W_ReadDir"
  shows "W_ReadDir \<notin> set (ws[i := pc])"
proof (cases "W_ReadDir \<in> set ws")
  case True
  with assms show ?thesis by simp
next
  case False
  with assms(3) show ?thesis by (auto dest: mem_upd)
qed

lemma inv_quiet:
  assumes inv: "inv w c fs0 s" and len: "i < length (workers s)"
    and old: "workers s ! i \<noteq> W_Exit"
    and new: "pc \<noteq> W_ReadDir" "pc \<noteq> W_Exit" "\<And>k. pc \<noteq> W_Index k"
      "\<And>l n rest. pc = W_Print l n rest \<Longrightarrow> notified [l] = []"
    and owe: "owed (batch w c fs0) pc = owed (batch w c fs0) (workers s ! i)"
    and out: "notified ls = []"
  shows "inv w c fs0 (goto i pc (s\<lparr>out := out s @ ls, calls := cs, fs := fs'\<rparr>))"
    (is "inv w c fs0 ?s'")
proof -
  let ?es = "batch w c fs0"
  from inv old len have op: "\<not> closed s" "sup s = S_None \<or> sup s = S_Wait"
    by (auto simp: inv_def inv_sup_def split: spc.splits dest: exited_nth)
  from inv have rd: "W_ReadDir \<in> set (workers s) \<longrightarrow> workers s = [W_ReadDir]"
    by (simp add: inv_def inv_workers_def)
  have nr: "W_ReadDir \<notin> set ((workers s)[i := pc])"
    using rd len new(1) by (rule no_readdir_upd)
  obtain r where r: "(\<Sum>pc\<leftarrow>workers s. mset (owed ?es pc)) = mset (owed ?es (workers s ! i)) + r"
      "\<And>y. (\<Sum>pc\<leftarrow>(workers s)[i := y]. mset (owed ?es pc)) = mset (owed ?es y) + r"
    using sum_list_split [OF len, where f = "\<lambda>pc. mset (owed ?es pc)"] by blast
  obtain l where l: "(\<Sum>pc\<leftarrow>workers s. live pc) = live (workers s ! i) + l"
      "\<And>y. (\<Sum>pc\<leftarrow>(workers s)[i := y]. live pc) = live y + l"
    using sum_list_split [OF len, where f = live] by blast
  from old new(2) have lv: "live (workers s ! i) = 1" "live pc = 1"
    by (simp_all add: live_eq)
  have 1: "\<not> crashed ?s'" using inv by (simp add: inv_def goto_def)
  have 2: "inv_main w c fs0 ?s'"
    using inv len op nr by (cases "mainpc s") (auto simp: inv_def inv_main_def goto_def)
  have 3: "inv_sup ?s'"
    using op by (auto simp: inv_sup_def goto_def)
  have 4: "inv_workers w c fs0 ?s'"
    using inv nr new(3,4) by (auto simp: inv_def inv_workers_def goto_def dest!: mem_upd; blast)
  have 5: "inv_count w c fs0 ?s'"
    using inv l lv by (simp add: inv_def inv_count_def goto_def)
  have 6: "inv_cons w c fs0 ?s'"
    using inv r owe out by (simp add: inv_def inv_cons_def pending_def goto_def)
  from 1 2 3 4 5 6 show ?thesis by (simp add: inv_def)
qed

lemma inv_sent:
  assumes inv: "inv w c fs0 s" and len: "i < length (workers s)"
    and old: "workers s ! i = W_Send n rest"
    and how: "mainpc s = M_Range \<and> chan s = [] \<and> m = M_Notify n \<and> q = chan s
      \<or> length (chan s) < cap s \<and> m = mainpc s \<and> q = chan s @ [n]"
  shows "inv w c fs0 (goto i (W_Loop rest) (s\<lparr>mainpc := m, chan := q, sent := sent s @ [n]\<rparr>))"
    (is "inv w c fs0 ?s'")
proof -
  let ?es = "batch w c fs0"
  from old have run: "workers s ! i \<noteq> W_Exit" by simp
  from inv run len have op: "\<not> closed s" "sup s = S_None \<or> sup s = S_Wait"
    by (auto simp: inv_def inv_sup_def split: spc.splits dest: exited_nth)
  from inv have rd: "W_ReadDir \<in> set (workers s) \<longrightarrow> workers s = [W_ReadDir]"
    by (simp add: inv_def inv_workers_def)
  have nr: "W_ReadDir \<notin> set ((workers s)[i := W_Loop rest])"
    using rd len by (rule no_readdir_upd) simp
  obtain r where r: "(\<Sum>pc\<leftarrow>workers s. mset (owed ?es pc)) = mset (owed ?es (workers s ! i)) + r"
      "\<And>y. (\<Sum>pc\<leftarrow>(workers s)[i := y]. mset (owed ?es pc)) = mset (owed ?es y) + r"
    using sum_list_split [OF len, where f = "\<lambda>pc. mset (owed ?es pc)"] by blast
  obtain l where l: "(\<Sum>pc\<leftarrow>workers s. live pc) = live (workers s ! i) + l"
      "\<And>y. (\<Sum>pc\<leftarrow>(workers s)[i := y]. live pc) = live y + l"
    using sum_list_split [OF len, where f = live] by blast
  have 1: "\<not> crashed ?s'" using inv by (simp add: inv_def goto_def)
  have 2: "inv_main w c fs0 ?s'"
    using inv len op nr how by (cases "mainpc s") (auto simp: inv_def inv_main_def goto_def)
  have 3: "inv_sup ?s'"
    using op by (auto simp: inv_sup_def goto_def)
  have 4: "inv_workers w c fs0 ?s'"
    using inv nr by (auto simp: inv_def inv_workers_def goto_def dest!: mem_upd; blast)
  have 5: "inv_count w c fs0 ?s'"
    using inv l old how by (auto simp: inv_def inv_count_def goto_def)
  have 6: "inv_cons w c fs0 ?s'"
    using inv r old how by (auto simp: inv_def inv_cons_def pending_def goto_def)
  from 1 2 3 4 5 6 show ?thesis by (simp add: inv_def)
qed

lemma inv_done:
  assumes inv: "inv w c fs0 s" and len: "i < length (workers s)"
    and old: "workers s ! i = W_Done"
  shows "0 < wg s" and "inv w c fs0 (goto i W_Exit (s\<lparr>wg := wg s - 1\<rparr>))"
    (is "inv w c fs0 ?s'")
proof -
  let ?es = "batch w c fs0"
  from old have run: "workers s ! i \<noteq> W_Exit" by simp
  from inv run len have op: "\<not> closed s" "sup s = S_None \<or> sup s = S_Wait"
    by (auto simp: inv_def inv_sup_def split: spc.splits dest: exited_nth)
  from inv have rd: "W_ReadDir \<in> set (workers s) \<longrightarrow> workers s = [W_ReadDir]"
    by (simp add: inv_def inv_workers_def)
  have nr: "W_ReadDir \<notin> set ((workers s)[i := W_Exit])"
    using rd len by (rule no_readdir_upd) simp
  obtain r where r: "(\<Sum>pc\<leftarrow>workers s. mset (owed ?es pc)) = mset (owed ?es (workers s ! i)) + r"
      "\<And>y. (\<Sum>pc\<leftarrow>(workers s)[i := y]. mset (owed ?es pc)) = mset (owed ?es y) + r"
    using sum_list_split [OF len, where f = "\<lambda>pc. mset (owed ?es pc)"] by blast
  obtain l where l: "(\<Sum>pc\<leftarrow>workers s. live pc) = live (workers s ! i) + l"
      "\<And>y. (\<Sum>pc\<leftarrow>(workers s)[i := y]. live pc) = live y + l"
    using sum_list_split [OF len, where f = live] by blast
  show pos: "0 < wg s" using inv l old by (simp add: inv_def inv_count_def)
  have 1: "\<not> crashed ?s'" using inv by (simp add: inv_def goto_def)
  have 2: "inv_main w c fs0 ?s'"
    using inv len op nr by (cases "mainpc s") (auto simp: inv_def inv_main_def goto_def)
  have 3: "inv_sup ?s'"
    using op by (auto simp: inv_sup_def goto_def)
  have 4: "inv_workers w c fs0 ?s'"
    using inv nr by (auto simp: inv_def inv_workers_def goto_def dest!: mem_upd; blast)
  have 5: "inv_count w c fs0 ?s'"
    using inv l old by (auto simp: inv_def inv_count_def goto_def)
  have 6: "inv_cons w c fs0 ?s'"
    using inv r old by (auto simp: inv_def inv_cons_def pending_def goto_def)
  from 1 2 3 4 5 6 show "inv w c fs0 ?s'" by (simp add: inv_def)
qed

lemma take1_drop: "k < length es \<Longrightarrow> take (Suc 0) (drop k es) = [es ! k]"
  by (simp add: take_Suc_conv_app_nth)

lemma inv_step_worker:
  assumes inv: "inv w c fs0 s" and st: "step_worker w c i s = Some s'"
  shows "inv w c fs0 s'"
proof -
  let ?es = "batch w c fs0"
  from st have len: "i < length (workers s)" and run: "workers s ! i \<noteq> W_Exit"
    by (auto simp: step_worker_def split: if_splits)
  from len have mem: "workers s ! i \<in> set (workers s)" by simp
  from inv run len have op: "\<not> closed s" "sup s = S_None \<or> sup s = S_Wait"
    by (auto simp: inv_def inv_sup_def split: spc.splits dest: exited_nth)
  from inv have rd: "W_ReadDir \<in> set (workers s) \<longrightarrow> workers s = [W_ReadDir]"
    by (simp add: inv_def inv_workers_def)
  note quiet = inv_quiet [OF inv len run]
  from st show ?thesis
  proof (cases rule: step_worker_cases)
    case (ReadDirFail e)
    with inv mem have "?es = []" by (auto simp: inv_def inv_workers_def batch_def)
    with ReadDirFail quiet [where pc = "W_Fail e" and ls = "[]" and cs = "calls s @ [ReadDirCall (srcPath c)]" and fs' = "fs s"]
    show ?thesis by simp
  next
    case (ReadDirOk fl)
    with inv mem have "?es = fl" by (auto simp: inv_def inv_workers_def batch_def)
    with ReadDirOk quiet [where pc = "W_Loop fl" and ls = "[]" and cs = "calls s @ [ReadDirCall (srcPath c)]" and fs' = "fs s"]
    show ?thesis by simp
  next
    case (Fail e)
    with quiet [where pc = W_Done and ls = "[ReadDirError e]" and cs = "calls s" and fs' = "fs s"]
    show ?thesis by simp
  next
    case LoopEnd
    with quiet [where pc = W_Done and ls = "[]" and cs = "calls s" and fs' = "fs s"]
    show ?thesis by simp
  next
    case (LoopDir f rest)
    with quiet [where pc = "W_Loop rest" and ls = "[]" and cs = "calls s" and fs' = "fs s"]
    show ?thesis by simp
  next
    case (LoopFile f rest)
    with quiet [where pc = "W_Switch (Name f) rest" and ls = "[]" and cs = "calls s" and fs' = "fs s"]
    show ?thesis by simp
  next
    case (IndexRange k)
    with inv mem show ?thesis by (auto simp: inv_def inv_workers_def)
  next
    case (IndexDir k)
    with inv mem have "k < length ?es" "fileList s = ?es"
      by (auto simp: inv_def inv_workers_def)
    with IndexDir quiet [where pc = W_Done and ls = "[]" and cs = "calls s" and fs' = "fs s"]
    show ?thesis by (simp add: take1_drop)
  next
    case (IndexFile k)
    with inv mem have "k < length ?es" "fileList s = ?es"
      by (auto simp: inv_def inv_workers_def)
    with IndexFile quiet [where pc = "W_Switch (Name (fileList s ! k)) []" and ls = "[]" and cs = "calls s" and fs' = "fs s"]
    show ?thesis by (simp add: take1_drop)
  next
    case (OpenFail n rest e)
    have "notified [failure c n e] = []" by (simp add: failure_def)
    with OpenFail quiet [where pc = "W_Print (failure c n e) n rest" and ls = "[]" and cs = "calls s @ [OpenCall (Join w (srcPath c) n)]" and fs' = "fs s"]
    show ?thesis by simp
  next
    case (OpenGray n rest img)
    with quiet [where pc = "W_Save n (Grayscale w img) rest" and ls = "[]" and cs = "calls s @ [OpenCall (Join w (srcPath c) n), GrayscaleCall]" and fs' = "fs s"]
    show ?thesis by simp
  next
    case (OpenBlur n rest img)
    with quiet [where pc = "W_Save n (Blur w img 5) rest" and ls = "[]" and cs = "calls s @ [OpenCall (Join w (srcPath c) n), BlurCall 5]" and fs' = "fs s"]
    show ?thesis by simp
  next
    case (BadFilter n rest)
    with quiet [where pc = "W_Print (InvalidFilter (filterName c)) n rest" and ls = "[]" and cs = "calls s" and fs' = "fs s"]
    show ?thesis by simp
  next
    case (SaveOk n img rest fs')
    with quiet [where pc = "W_Send n rest" and ls = "[]" and cs = "calls s @ [SaveCall (Join w (destPath c) n)]" and fs' = fs']
    show ?thesis by simp
  next
    case (SaveFail n img rest e fs')
    have "notified [failure c n e] = []" by (simp add: failure_def)
    with SaveFail quiet [where pc = "W_Print (failure c n e) n rest" and ls = "[]" and cs = "calls s @ [SaveCall (Join w (destPath c) n)]" and fs' = fs']
    show ?thesis by simp
  next
    case (Print l n rest)
    with inv mem have "notified [l] = []" by (auto simp: inv_def inv_workers_def)
    with Print quiet [where pc = "W_Send n rest" and ls = "[l]" and cs = "calls s" and fs' = "fs s"]
    show ?thesis by simp
  next
    case (SendClosed n rest)
    with op show ?thesis by simp
  next
    case (SendHandoff n rest)
    then have "inv w c fs0 (goto i (W_Loop rest)
        (s\<lparr>mainpc := M_Notify n, chan := chan s, sent := sent s @ [n]\<rparr>))"
      by (intro inv_sent [OF inv len]) simp_all
    then show ?thesis by (simp add: SendHandoff(6))
  next
    case (SendBuffer n rest)
    with inv_sent [OF inv len, where n = n and rest = rest and m = "mainpc s"
        and q = "chan s @ [n]"]
    show ?thesis by simp
  next
    case DonePanic
    with inv_done(1) [OF inv len] show ?thesis by simp
  next
    case Done
    with inv_done(2) [OF inv len] show ?thesis by simp
  qed
qed

lemma inv_step_main:
  assumes inv: "inv w c fs0 s" and st: "step_main w c s = Some s'"
  shows "inv w c fs0 s'"
  using st
proof (cases rule: step_main_cases)
  case Usage
  with inv show ?thesis by (simp add: inv_def inv_main_def)
next
  case ToWaitGroup
  with inv show ?thesis by (simp add: inv_def inv_main_def)
next
  case ToChannel
  with inv show ?thesis by (simp add: inv_def inv_main_def)
next
  case BadTask
  with inv show ?thesis by (simp add: inv_def inv_main_def)
next
  case WaitGroup
  with inv show ?thesis by (auto simp: inv_defs)
next
  case (ChannelFail e)
  with inv show ?thesis by (auto simp: inv_defs batch_def)
next
  case (ChannelOk fl)
  with inv show ?thesis by (auto simp: inv_defs batch_def)
next
  case (Fail e)
  with inv show ?thesis by (auto simp: inv_defs batch_def)
next
  case (Spawn k)
  with inv show ?thesis
    by (auto simp: inv_defs drop_names ac_simps split: spc.splits)
next
  case (SpawnEnd k)
  with inv show ?thesis by (auto simp: inv_defs split: spc.splits)
next
  case Supervise
  with inv show ?thesis by (auto simp: inv_defs)
next
  case (Receive v q)
  with inv show ?thesis by (auto simp: inv_defs split: spc.splits)
next
  case RangeEnd
  with inv show ?thesis by (auto simp: inv_defs split: spc.splits)
next
  case (Notify n)
  with inv show ?thesis by (auto simp: inv_defs split: spc.splits)
qed

lemma inv_step_sup:
  assumes inv: "inv w c fs0 s" and st: "step_sup s = Some s'"
  shows "inv w c fs0 s'"
  using st
proof (cases rule: step_sup_cases)
  case Wait
  with inv show ?thesis
    by (cases "mainpc s") (auto simp: inv_defs exited_live)
next
  case ClosePanic
  with inv show ?thesis by (simp add: inv_def inv_sup_def)
next
  case Close
  with inv show ?thesis
    by (cases "mainpc s") (auto simp: inv_defs)
qed

lemma inv_step:
  assumes "inv w c fs0 s" and "step w c t s = Some s'"
  shows "inv w c fs0 s'"
  using assms(2)
proof (cases rule: step_cases)
  case Main
  with assms(1) show ?thesis by (blast intro: inv_step_main)
next
  case (Worker i)
  with assms(1) show ?thesis by (blast intro: inv_step_worker)
next
  case Supervisor
  with assms(1) show ?thesis by (blast intro: inv_step_sup)
qed

lemma inv_run: "inv w c fs0 s \<Longrightarrow> run w c sched s = Some s' \<Longrightarrow> inv w c fs0 s'"
proof (induction sched arbitrary: s)
  case Nil
  then show ?case by simp
next
  case (Cons t ts)
  then show ?case by (auto split: option.splits dest: inv_step)
qed

lemma cost_step_worker:
  assumes inv: "inv w c fs0 s" and st: "step_worker w c i s = Some s'"
    and n: "n = length (batch w c fs0)"
  shows "cost n s' < cost n s"
proof -
  from st have len: "i < length (workers s)"
    by (auto simp: step_worker_def split: if_splits)
  from len have mem: "workers s ! i \<in> set (workers s)" by simp
  obtain r where r: "(\<Sum>pc\<leftarrow>workers s. cost_w n pc) = cost_w n (workers s ! i) + r"
      "\<And>y. (\<Sum>pc\<leftarrow>(workers s)[i := y]. cost_w n pc) = cost_w n y + r"
    using sum_list_split [OF len, where f = "cost_w n"] by blast
  from inv_step_worker [OF inv st] have nc: "\<not> crashed s'" by (simp add: inv_def)
  from st show ?thesis
  proof (cases rule: step_worker_cases)
    case (ReadDirOk fl)
    with inv mem have "batch w c fs0 = fl" by (auto simp: inv_def inv_workers_def batch_def)
    with ReadDirOk r n show ?thesis by (simp add: cost_def goto_def)
  qed (use r nc in \<open>simp_all add: cost_def goto_def\<close>)
qed

lemma cost_step_main:
  assumes inv: "inv w c fs0 s" and st: "step_main w c s = Some s'"
    and n: "n = length (batch w c fs0)"
  shows "cost n s' < cost n s"
  using st
proof (cases rule: step_main_cases)
  case (ChannelOk fl)
  with inv have "batch w c fs0 = fl" by (auto simp: inv_def inv_main_def batch_def)
  with ChannelOk inv n show ?thesis by (simp add: cost_def inv_def inv_main_def)
next
  case (Spawn k)
  with inv n show ?thesis by (simp add: cost_def inv_def inv_main_def)
next
  case (SpawnEnd k)
  with inv n show ?thesis by (simp add: cost_def inv_def inv_main_def)
next
  case Supervise
  with inv show ?thesis by (simp add: cost_def inv_def inv_main_def)
next
  case WaitGroup
  with inv show ?thesis by (simp add: cost_def inv_def inv_main_def)
qed (simp_all add: cost_def)

lemma cost_step_sup:
  assumes inv: "inv w c fs0 s" and st: "step_sup s = Some s'"
  shows "cost n s' < cost n s"
  using st
proof (cases rule: step_sup_cases)
  case ClosePanic
  with inv show ?thesis by (simp add: inv_def inv_sup_def)
qed (simp_all add: cost_def)

lemma cost_step:
  assumes "inv w c fs0 s" and "step w c t s = Some s'"
  shows "cost (length (batch w c fs0)) s' < cost (length (batch w c fs0)) s"
  using assms(2)
proof (cases rule: step_cases)
  case Main
  with assms(1) show ?thesis by (blast intro: cost_step_main)
next
  case (Worker i)
  with assms(1) show ?thesis by (blast intro: cost_step_worker)
next
  case Supervisor
  with assms(1) show ?thesis by (blast intro: cost_step_sup)
qed

lemma cost_run:
  "inv w c fs0 s \<Longrightarrow> run w c sched s = Some s' \<Longrightarrow>
    length sched + cost (length (batch w c fs0)) s' \<le> cost (length (batch w c fs0)) s"
proof (induction sched arbitrary: s)
  case Nil
  then show ?case by simp
next
  case (Cons t ts)
  from Cons.prems(2) obtain s1 where s1: "step w c t s = Some s1" "run w c ts s1 = Some s'"
    by (auto split: option.splits)
  from Cons.prems(1) s1(1) have "inv w c fs0 s1" by (rule inv_step)
  from Cons.IH [OF this s1(2)] cost_step [OF Cons.prems(1) s1(1)]
  show ?case by simp
qed

lemma worker_enabled:
  assumes "i < length (workers s)" and "workers s ! i \<noteq> W_Exit"
    and "\<And>n rest. workers s ! i = W_Send n rest \<Longrightarrow>
      closed s \<or> mainpc s = M_Range \<and> chan s = [] \<or> length (chan s) < cap s"
  shows "step_worker w c i s \<noteq> None"
proof (cases "workers s ! i")
  case (W_Loop rest)
  with assms(1) show ?thesis by (cases rest) (simp_all add: step_worker_def)
next
  case (W_Send n rest)
  with assms(1) assms(3) [OF W_Send] show ?thesis
    by (auto simp: step_worker_def send_def)
qed (use assms(1,2) in \<open>simp_all add: step_worker_def split: sum.splits prod.splits option.splits\<close>)

lemma live_worker:
  assumes "(\<Sum>pc\<leftarrow>ws. live pc) \<noteq> 0"
  shows "\<exists>i<length ws. ws ! i \<noteq> W_Exit"
proof -
  from assms have "\<not> exited ws" by (simp add: exited_live)
  then obtain pc where "pc \<in> set ws" "pc \<noteq> W_Exit" by (auto simp: exited_def)
  then show ?thesis by (auto simp: in_set_conv_nth)
qed

lemma progress:
  assumes inv: "inv w c fs0 s" and run: "mainpc s \<noteq> M_Exit"
  shows "\<exists>t. step w c t s \<noteq> None"
proof -
  from inv have nc: "\<not> crashed s" by (simp add: inv_def)
  show ?thesis
  proof (cases "step_main w c s = None")
    case False
    with nc run have "step w c Main s \<noteq> None" by (simp add: step_def)
    then show ?thesis ..
  next
    case True
    with run have blocked: "mainpc s = M_Range" "chan s = []" "\<not> closed s"
      by (cases "mainpc s"; simp add: step_main_def split: sum.splits list.splits if_splits)+
    with inv have sup: "sup s = S_Wait \<or> sup s = S_Close"
      by (cases "sup s") (simp_all add: inv_def inv_main_def inv_sup_def)
    show ?thesis
    proof (cases "sup s = S_Wait \<and> wg s \<noteq> 0")
      case False
      with sup blocked have "step_sup s \<noteq> None" by (auto simp: step_sup_def)
      with nc run have "step w c Supervisor s \<noteq> None" by (simp add: step_def)
      then show ?thesis ..
    next
      case True
      with inv have "(\<Sum>pc\<leftarrow>workers s. live pc) \<noteq> 0" by (simp add: inv_def inv_count_def)
      then obtain i where i: "i < length (workers s)" "workers s ! i \<noteq> W_Exit"
        using live_worker by blast
      from i blocked have "step_worker w c i s \<noteq> None" by (intro worker_enabled) simp_all
      with nc run have "step w c (Worker i) s \<noteq> None" by (simp add: step_def)
      then show ?thesis ..
    qed
  qed
qed

lemma exited_owed: "exited ws \<Longrightarrow> (\<Sum>pc\<leftarrow>ws. mset (owed es pc)) = {#}"
  by (induction ws) (simp_all add: exited_def)

lemma at_exit:
  assumes inv: "inv w c fs0 s" and ex: "mainpc s = M_Exit"
  shows "sent s = notified (out s)" and "mset (notified (out s)) = mset (names (batch w c fs0))"
    and "chan s = []" and "exited (workers s)" and "wg s = 0"
    and "closed s \<or> (\<exists>e. ReadDir w fs0 (srcPath c) = Inl e)"
proof -
  from inv ex show "closed s \<or> (\<exists>e. ReadDir w fs0 (srcPath c) = Inl e)"
    by (auto simp: inv_def inv_main_def)
  from inv ex have ch: "chan s = []" and cl: "closed s \<or> workers s = []"
    by (auto simp: inv_def inv_main_def)
  from inv cl show exd: "exited (workers s)"
    by (cases "sup s") (auto simp: inv_def inv_sup_def exited_def)
  from inv ex ch show "sent s = notified (out s)" by (simp add: inv_def inv_cons_def)
  from inv ex ch exited_owed [OF exd]
  show "mset (notified (out s)) = mset (names (batch w c fs0))"
    by (simp add: inv_def inv_cons_def pending_def)
  show "chan s = []" by (rule ch)
  from inv exd show "wg s = 0" by (simp add: inv_def inv_count_def exited_live)
qed

lemmas model_defs =
  processImagesWithWaitGroup_def processImagesWithChannel_def main_def boot_def step_def
  step_main_def step_worker_def step_sup_def send_def goto_def failure_def

lemmas example_defs =
  example_world_def example_flags_def example_dir_def waitgrp_schedule_def channel_schedule_def

lemma example_waitgrp:
  "processImagesWithWaitGroup example_world example_flags [] waitgrp_schedule =
     Some waitgrp_final"
  by (simp add: model_defs example_defs waitgrp_final_def)

lemma example_channel:
  "processImagesWithChannel example_world example_flags [] channel_schedule =
     Some channel_final"
  by (simp add: model_defs example_defs channel_final_def)

lemma waitgrp_inv:
  "processImagesWithWaitGroup w c fs0 sched = Some s \<Longrightarrow> inv w c fs0 s"
  unfolding processImagesWithWaitGroup_def by (rule inv_run [OF inv_boot_waitgrp])

lemma channel_inv:
  "processImagesWithChannel w c fs0 sched = Some s \<Longrightarrow> inv w c fs0 s"
  unfolding processImagesWithChannel_def by (rule inv_run [OF inv_boot_channel])

lemma waitgrp_bound:
  assumes "processImagesWithWaitGroup w c fs0 sched = Some s"
  shows "length sched \<le> 7 * length (batch w c fs0) + 8"
proof -
  from assms have "run w c sched ((boot fs0)\<lparr>mainpc := M_WaitGroup\<rparr>) = Some s"
    by (simp add: processImagesWithWaitGroup_def)
  from cost_run [OF inv_boot_waitgrp this] show ?thesis
    by (simp add: cost_def boot_def)
qed

lemma channel_bound:
  assumes "processImagesWithChannel w c fs0 sched = Some s"
  shows "length sched \<le> 10 * length (batch w c fs0) + 6"
proof -
  from assms have "run w c sched ((boot fs0)\<lparr>mainpc := M_Channel\<rparr>) = Some s"
    by (simp add: processImagesWithChannel_def)
  from cost_run [OF inv_boot_channel this] show ?thesis
    by (simp add: cost_def boot_def)
qed

lemma length_names: "length (names es) = length [e\<leftarrow>es. \<not> IsDir e]"
  by (simp add: names_def)

lemma sent_le:
  assumes "inv w c fs0 s"
  shows "length (sent s) \<le> length (names (batch w c fs0))"
proof -
  let ?es = "batch w c fs0"
  from assms have 1: "mset (notified (out s)) + pending ?es s = mset (names ?es)"
    and 2: "sent s = notified (out s) @ held (mainpc s) @ chan s"
    by (simp_all add: inv_def inv_cons_def)
  from 1 have "length (names ?es) = size (mset (notified (out s)) + pending ?es s)"
    by (metis size_mset)
  also have "\<dots> = length (sent s) + size (\<Sum>pc\<leftarrow>workers s. mset (owed ?es pc)) +
      length (unspawned ?es (mainpc s))"
    by (simp add: 2 pending_def)
  finally show ?thesis by simp
qed

lemma batch_completes_aux:
  assumes rd: "ReadDir w fs0 (srcPath c) = Inr es" and inv: "inv w c fs0 s"
  shows "\<not> crashed s \<and> length (sent s) \<le> length [e\<leftarrow>es. \<not> IsDir e] \<and>
    notified (out s) @ held (mainpc s) @ chan s = sent s \<and>
    (mainpc s \<noteq> M_Exit \<longrightarrow> (\<exists>t. enabled w c s t)) \<and>
    (mainpc s = M_Exit \<longrightarrow>
       closed s \<and> chan s = [] \<and> length (sent s) = length [e\<leftarrow>es. \<not> IsDir e] \<and>
       notified (out s) = sent s)"
proof -
  from rd have es: "batch w c fs0 = es" by (simp add: batch_def)
  from inv have 1: "\<not> crashed s" by (simp add: inv_def)
  from sent_le [OF inv] es have 2: "length (sent s) \<le> length [e\<leftarrow>es. \<not> IsDir e]"
    by (simp add: length_names)
  from inv have 3: "notified (out s) @ held (mainpc s) @ chan s = sent s"
    by (simp add: inv_def inv_cons_def)
  from progress [OF inv] have 4: "mainpc s \<noteq> M_Exit \<longrightarrow> (\<exists>t. enabled w c s t)"
    by (simp add: enabled_def)
  have 5: "closed s \<and> chan s = [] \<and> length (sent s) = length [e\<leftarrow>es. \<not> IsDir e] \<and>
       notified (out s) = sent s" if "mainpc s = M_Exit"
  proof -
    from at_exit(2) [OF inv that] have "length (notified (out s)) = length (names es)"
      unfolding es by (metis size_mset)
    with at_exit(1,3,6) [OF inv that] rd show ?thesis by (simp add: length_names)
  qed
  from 1 2 3 4 5 show ?thesis by blast
qed

text \<open>
  C1. When the source directory lists \<open>es\<close>, every run of either strategy is finite (a
  schedule has at most \<open>10 * length es + 8\<close> steps), never panics and never sends more
  than one event per file; as long as \<^verbatim>\<open>main\<close> has not returned some goroutine can take
  a step, so no run stops before that; and when \<^verbatim>\<open>main\<close> has returned the channel is
  closed and drained, and exactly as many events were sent, and as many
  \<^verbatim>\<open>Finished processing\<close> lines printed, as \<open>es\<close> has entries that are not directories
  (none when \<open>es\<close> has none).
\<close>

theorem batch_completes:
  assumes "ReadDir w fs0 (srcPath c) = Inr es"
    and "processImagesWithWaitGroup w c fs0 sched = Some s \<or>
      processImagesWithChannel w c fs0 sched = Some s"
  shows "length sched \<le> 10 * length es + 8 \<and> \<not> crashed s \<and>
    length (sent s) \<le> length [e\<leftarrow>es. \<not> IsDir e] \<and>
    (mainpc s \<noteq> M_Exit \<longrightarrow> (\<exists>t. enabled w c s t)) \<and>
    (mainpc s = M_Exit \<longrightarrow>
       closed s \<and> chan s = [] \<and> length (sent s) = length [e\<leftarrow>es. \<not> IsDir e] \<and>
       length (notified (out s)) = length [e\<leftarrow>es. \<not> IsDir e])"
proof -
  from assms(1) have es: "batch w c fs0 = es" by (simp add: batch_def)
  from assms(2) have inv: "inv w c fs0 s" by (blast intro: waitgrp_inv channel_inv)
  from assms(2) have "length sched \<le> 10 * length es + 8"
  proof
    assume "processImagesWithWaitGroup w c fs0 sched = Some s"
    from waitgrp_bound [OF this] es show ?thesis by simp
  next
    assume "processImagesWithChannel w c fs0 sched = Some s"
    from channel_bound [OF this] es show ?thesis by simp
  qed
  with batch_completes_aux [OF assms(1) inv] show ?thesis by simp
qed

theorem batch_completes_witness:
  "\<exists>s. processImagesWithWaitGroup example_world example_flags [] waitgrp_schedule = Some s \<and>
     length waitgrp_schedule \<le> 10 * length example_dir + 8 \<and> mainpc s = M_Exit \<and> closed s \<and>
     length (sent s) = 2 \<and> length (notified (out s)) = 2"
proof -
  have rd: "ReadDir example_world [] (srcPath example_flags) = Inr example_dir"
    by (simp add: example_defs)
  from batch_completes [OF rd disjI1 [OF example_waitgrp]] show ?thesis
    by (simp add: example_waitgrp example_dir_def waitgrp_final_def)
qed

lemma worker_frame:
  assumes "step_worker w c i s = Some s'"
  shows "cap s' = cap s \<and> fileList s' = fileList s \<and> sup s' = sup s \<and>
    closed s' = closed s \<and> length (workers s') = length (workers s) \<and>
    (mainpc s' = mainpc s \<or> mainpc s = M_Range \<and> (\<exists>n. mainpc s' = M_Notify n))"
  using assms by (cases rule: step_worker_cases) (simp_all add: goto_def)

lemma sup_frame:
  assumes "step_sup s = Some s'"
  shows "cap s' = cap s \<and> fileList s' = fileList s \<and> workers s' = workers s \<and>
    mainpc s' = mainpc s \<and> sent s' = sent s \<and> out s' = out s \<and> calls s' = calls s \<and>
    fs s' = fs s"
  using assms by (cases rule: step_sup_cases) simp_all

lemma inv_channel_step:
  assumes inv: "inv w c fs0 s" and ch: "inv_channel w c fs0 s" and st: "step w c t s = Some s'"
  shows "inv_channel w c fs0 s'"
  using st
proof (cases rule: step_cases)
  case Main
  from Main(4) show ?thesis
  proof (cases rule: step_main_cases)
    case (ChannelOk fl)
    with inv show ?thesis by (auto simp: inv_channel_def inv_def inv_main_def)
  next
    case (SpawnEnd k)
    with inv ch show ?thesis by (auto simp: inv_channel_def inv_def inv_main_def)
  next
    case (Fail e)
    with inv show ?thesis by (auto simp: inv_channel_def inv_def inv_main_def)
  qed (use ch in \<open>auto simp: inv_channel_def\<close>)
next
  case (Worker i)
  from worker_frame [OF Worker(4)] ch Worker(2) show ?thesis
    by (cases "mainpc s") (auto simp: inv_channel_def)
next
  case Supervisor
  from sup_frame [OF Supervisor(4)] ch show ?thesis
    by (cases "mainpc s") (auto simp: inv_channel_def)
qed

lemma inv_channel_run:
  "inv w c fs0 s \<Longrightarrow> inv_channel w c fs0 s \<Longrightarrow> run w c sched s = Some s' \<Longrightarrow>
    inv_channel w c fs0 s'"
proof (induction sched arbitrary: s)
  case Nil
  then show ?case by simp
next
  case (Cons t ts)
  from Cons.prems(3) obtain s1 where s1: "step w c t s = Some s1" "run w c ts s1 = Some s'"
    by (auto split: option.splits)
  from Cons.prems(1) s1(1) have "inv w c fs0 s1" by (rule inv_step)
  moreover from Cons.prems(1,2) s1(1) have "inv_channel w c fs0 s1" by (rule inv_channel_step)
  ultimately show ?case using s1(2) by (rule Cons.IH)
qed

lemma channel_inv_channel:
  assumes "processImagesWithChannel w c fs0 sched = Some s"
  shows "inv_channel w c fs0 s"
proof -
  have "inv_channel w c fs0 ((boot fs0)\<lparr>mainpc := M_Channel\<rparr>)"
    by (simp add: inv_channel_def)
  with inv_boot_channel show ?thesis
    using assms unfolding processImagesWithChannel_def by (rule inv_channel_run)
qed

lemma owed_le:
  assumes inv: "inv w c fs0 s" and len: "i < length (workers s)"
  shows "length (sent s) + length (owed (batch w c fs0) (workers s ! i))
    \<le> length (names (batch w c fs0))"
proof -
  let ?es = "batch w c fs0"
  obtain r where r: "(\<Sum>pc\<leftarrow>workers s. mset (owed ?es pc)) = mset (owed ?es (workers s ! i)) + r"
    using sum_list_split [OF len, where f = "\<lambda>pc. mset (owed ?es pc)"] by blast
  from inv have 1: "mset (notified (out s)) + pending ?es s = mset (names ?es)"
    and 2: "sent s = notified (out s) @ held (mainpc s) @ chan s"
    by (simp_all add: inv_def inv_cons_def)
  from 1 have "length (names ?es) = size (mset (notified (out s)) + pending ?es s)"
    by (metis size_mset)
  also have "\<dots> = length (sent s) + (length (owed ?es (workers s ! i)) + size r) +
      length (unspawned ?es (mainpc s))"
    by (simp add: 2 pending_def r)
  finally show ?thesis by simp
qed

text \<open>
  C6. In the second strategy the channel has the capacity of the number of entries that
  \<^verbatim>\<open>ReadDir\<close> returned, and whenever a worker is about to send, the buffer has room: the
  send is a step that the worker can take at once, whatever the collector does, and it does
  not panic.
\<close>

theorem channel_send_never_blocks:
  assumes "processImagesWithChannel w c fs0 sched = Some s"
    and "i < length (workers s)" and "workers s ! i = W_Send n rest"
  shows "ReadDir w fs0 (srcPath c) = Inr (fileList s) \<and> cap s = length (fileList s) \<and>
    length (chan s) < cap s \<and>
    (\<exists>s'. step w c (Worker i) s = Some s' \<and> \<not> crashed s' \<and> workers s' ! i = W_Loop rest)"
proof -
  from assms(1) have inv: "inv w c fs0 s" and ch: "inv_channel w c fs0 s"
    by (rule channel_inv, rule channel_inv_channel)
  from assms(2) have mem: "workers s ! i \<in> set (workers s)" by simp
  from inv assms(2,3) have op: "\<not> closed s"
    by (auto simp: inv_def inv_sup_def split: spc.splits dest: exited_nth)
  from inv have nc: "\<not> crashed s" by (simp add: inv_def)
  have ne: "mainpc s \<noteq> M_Exit"
  proof
    assume "mainpc s = M_Exit"
    from at_exit(4) [OF inv this] assms(2,3) show False by (auto dest: exited_nth)
  qed
  from ch assms(2) inv ne have rd: "ReadDir w fs0 (srcPath c) = Inr (fileList s)"
    and cap: "cap s = length (fileList s)"
    by (cases "mainpc s"; auto simp: inv_channel_def inv_def inv_main_def)+
  from rd have es: "batch w c fs0 = fileList s" by (simp add: batch_def)
  from inv have "length (chan s) \<le> length (sent s)" by (simp add: inv_def inv_cons_def)
  with owed_le [OF inv assms(2)] assms(3) es
  have "length (chan s) < length (names (fileList s))" by simp
  also have "\<dots> \<le> length (fileList s)" by (simp add: names_def)
  finally have room: "length (chan s) < cap s" by (simp add: cap)
  with assms(2,3) op nc ne
  have "\<exists>s'. step w c (Worker i) s = Some s' \<and> \<not> crashed s' \<and> workers s' ! i = W_Loop rest"
    by (simp add: step_def step_worker_def send_def goto_def)
  with rd cap room show ?thesis by simp
qed

theorem channel_send_never_blocks_witness:
  "\<exists>s. processImagesWithChannel example_world example_flags []
         [Main, Main, Worker 0, Worker 0, Worker 0] = Some s \<and>
       workers s ! 0 = W_Send ''a.png'' [] \<and> cap s = 3 \<and> length (chan s) < cap s \<and>
       (\<exists>s'. step example_world example_flags (Worker 0) s = Some s' \<and> \<not> crashed s')"
proof -
  have run: "processImagesWithChannel example_world example_flags []
      [Main, Main, Worker 0, Worker 0, Worker 0] =
    Some \<lparr>mainpc = M_Spawn 1, workers = [W_Send ''a.png'' []], sup = S_None,
      fileList = example_dir, chan = [], sent = [], cap = 3, closed = False, wg = 1,
      out = [], calls = [ReadDirCall ''in'', OpenCall ''in/a.png'', BlurCall 5,
        SaveCall ''out/a.png''],
      fs = [''out/a.png''], crashed = False\<rparr>"
    by (simp add: model_defs example_defs)
  from channel_send_never_blocks [OF run, of 0 "''a.png''" "[]"] show ?thesis
    unfolding run by (simp add: example_dir_def) blast
qed

lemma inv_waitgrp_step:
  assumes inv: "inv w c fs0 s" and wa: "inv_waitgrp w c fs0 s" and st: "step w c t s = Some s'"
  shows "inv_waitgrp w c fs0 s'"
  using st
proof (cases rule: step_cases)
  case Main
  from Main(4) show ?thesis
  proof (cases rule: step_main_cases)
    case WaitGroup
    with wa inv show ?thesis by (auto simp: inv_waitgrp_def inv_def inv_main_def)
  qed (use wa in \<open>auto simp: inv_waitgrp_def\<close>)
next
  case (Worker i)
  from Worker(4) have len: "i < length (workers s)"
    by (auto simp: step_worker_def split: if_splits)
  with wa obtain pc where pc: "workers s = [pc]" "i = 0"
    by (cases "workers s") (auto simp: inv_waitgrp_def)
  from inv pc have rd: "pc = W_ReadDir \<Longrightarrow> fs s = fs0"
    by (simp add: inv_def inv_workers_def)
  from inv_step_worker [OF inv Worker(4)] have nc: "\<not> crashed s'" by (simp add: inv_def)
  from Worker(4) show ?thesis
  proof (cases rule: step_worker_cases)
    case (ReadDirFail e)
    with wa pc rd show ?thesis by (auto simp: inv_waitgrp_def goto_def batch_def)
  next
    case (ReadDirOk fl)
    with wa pc rd show ?thesis by (auto simp: inv_waitgrp_def goto_def batch_def)
  next
    case (IndexDir k)
    with wa pc inv show ?thesis
      by (auto simp: inv_waitgrp_def goto_def inv_def inv_workers_def take1_drop)
  next
    case (IndexFile k)
    with wa pc inv show ?thesis
      by (auto simp: inv_waitgrp_def goto_def inv_def inv_workers_def take1_drop)
  qed (use wa pc nc in \<open>auto simp: inv_waitgrp_def goto_def\<close>)
next
  case Supervisor
  from sup_frame [OF Supervisor(4)] wa show ?thesis
    by (simp add: inv_waitgrp_def)
qed

lemma inv_waitgrp_run:
  "inv w c fs0 s \<Longrightarrow> inv_waitgrp w c fs0 s \<Longrightarrow> run w c sched s = Some s' \<Longrightarrow>
    inv_waitgrp w c fs0 s'"
proof (induction sched arbitrary: s)
  case Nil
  then show ?case by simp
next
  case (Cons t ts)
  from Cons.prems(3) obtain s1 where s1: "step w c t s = Some s1" "run w c ts s1 = Some s'"
    by (auto split: option.splits)
  from Cons.prems(1) s1(1) have "inv w c fs0 s1" by (rule inv_step)
  moreover from Cons.prems(1,2) s1(1) have "inv_waitgrp w c fs0 s1" by (rule inv_waitgrp_step)
  ultimately show ?case using s1(2) by (rule Cons.IH)
qed

lemma waitgrp_inv_waitgrp:
  assumes "processImagesWithWaitGroup w c fs0 sched = Some s"
  shows "inv_waitgrp w c fs0 s"
proof -
  have "inv_waitgrp w c fs0 ((boot fs0)\<lparr>mainpc := M_WaitGroup\<rparr>)"
    by (simp add: inv_waitgrp_def boot_def)
  with inv_boot_waitgrp show ?thesis
    using assms unfolding processImagesWithWaitGroup_def by (rule inv_waitgrp_run)
qed

text \<open>
  C3. In the first strategy, at every moment of every run, the events sent so far are an
  initial part of the names of the non-directory entries in the order of the enumeration,
  the collector has received them in that order (what it has printed, what it is about to
  print and what waits in the channel is the history of the sends), and when \<^verbatim>\<open>main\<close>
  returns the \<^verbatim>\<open>Finished processing\<close> lines are exactly these names in that order.
\<close>

theorem waitgrp_order:
  assumes "ReadDir w fs0 (srcPath c) = Inr es"
    and "processImagesWithWaitGroup w c fs0 sched = Some s"
  shows "(\<exists>later. map Name [e\<leftarrow>es. \<not> IsDir e] = sent s @ later) \<and>
    sent s = notified (out s) @ held (mainpc s) @ chan s \<and>
    (mainpc s = M_Exit \<longrightarrow> notified (out s) = map Name [e\<leftarrow>es. \<not> IsDir e])"
proof -
  from assms(1) have es: "batch w c fs0 = es" by (simp add: batch_def)
  from assms(2) have inv: "inv w c fs0 s" and wa: "inv_waitgrp w c fs0 s"
    by (rule waitgrp_inv, rule waitgrp_inv_waitgrp)
  from wa es have "map Name [e\<leftarrow>es. \<not> IsDir e] =
      sent s @ (concat (map (owed es) (workers s)) @ unspawned es (mainpc s))"
    by (simp add: inv_waitgrp_def names_def)
  then have 1: "\<exists>later. map Name [e\<leftarrow>es. \<not> IsDir e] = sent s @ later" ..
  from inv have 2: "sent s = notified (out s) @ held (mainpc s) @ chan s"
    by (simp add: inv_def inv_cons_def)
  have 3: "notified (out s) = map Name [e\<leftarrow>es. \<not> IsDir e]" if "mainpc s = M_Exit"
  proof -
    from at_exit(4) [OF inv that] have "concat (map (owed es) (workers s)) = []"
      by (auto simp: exited_def)
    with wa es that at_exit(1) [OF inv that] show ?thesis
      by (simp add: inv_waitgrp_def names_def)
  qed
  from 1 2 3 show ?thesis by blast
qed

theorem waitgrp_order_witness:
  "\<exists>s. processImagesWithWaitGroup example_world example_flags [] waitgrp_schedule = Some s \<and>
     mainpc s = M_Exit \<and> sent s = [''a.png'', ''b.txt''] \<and>
     notified (out s) = map Name [e\<leftarrow>example_dir. \<not> IsDir e]"
proof -
  have rd: "ReadDir example_world [] (srcPath example_flags) = Inr example_dir"
    by (simp add: example_defs)
  from waitgrp_order [OF rd example_waitgrp] show ?thesis
    by (simp add: example_waitgrp example_dir_def waitgrp_final_def)
qed

lemma owed_subset:
  assumes inv: "inv w c fs0 s" and len: "i < length (workers s)"
  shows "set (owed (batch w c fs0) (workers s ! i)) \<subseteq> set (names (batch w c fs0))"
proof -
  let ?es = "batch w c fs0"
  obtain r where r: "(\<Sum>pc\<leftarrow>workers s. mset (owed ?es pc)) = mset (owed ?es (workers s ! i)) + r"
    using sum_list_split [OF len, where f = "\<lambda>pc. mset (owed ?es pc)"] by blast
  from inv have "mset (notified (out s)) + pending ?es s = mset (names ?es)"
    by (simp add: inv_def inv_cons_def)
  then have "mset (owed ?es (workers s ! i)) \<subseteq># mset (names ?es)"
    unfolding pending_def r
    by (metis mset_subset_eq_add_left mset_subset_eq_add_right subset_mset.order_trans)
  then show ?thesis using set_mset_mono by fastforce
qed

lemma calls_step:
  assumes inv: "inv w c fs0 s" and ok: "\<forall>x\<in>set (calls s). call_ok w c (batch w c fs0) x"
    and st: "step w c t s = Some s'"
  shows "\<forall>x\<in>set (calls s'). call_ok w c (batch w c fs0) x"
  using st
proof (cases rule: step_cases)
  case Main
  from Main(4) show ?thesis
    by (cases rule: step_main_cases) (use ok in auto)
next
  case (Worker i)
  from Worker(4) have len: "i < length (workers s)"
    by (auto simp: step_worker_def split: if_splits)
  note sub = owed_subset [OF inv len]
  from Worker(4) show ?thesis
    by (cases rule: step_worker_cases) (use ok sub in \<open>auto simp: goto_def\<close>)
next
  case Supervisor
  from sup_frame [OF Supervisor(4)] ok show ?thesis by simp
qed

lemma calls_run:
  "inv w c fs0 s \<Longrightarrow> \<forall>x\<in>set (calls s). call_ok w c (batch w c fs0) x \<Longrightarrow>
    run w c sched s = Some s' \<Longrightarrow> \<forall>x\<in>set (calls s'). call_ok w c (batch w c fs0) x"
proof (induction sched arbitrary: s)
  case Nil
  then show ?case by simp
next
  case (Cons t ts)
  from Cons.prems(3) obtain s1 where s1: "step w c t s = Some s1" "run w c ts s1 = Some s'"
    by (auto split: option.splits)
  from Cons.prems(1) s1(1) have "inv w c fs0 s1" by (rule inv_step)
  moreover from Cons.prems(1,2) s1(1) have "\<forall>x\<in>set (calls s1). call_ok w c (batch w c fs0) x"
    by (rule calls_step)
  ultimately show ?case using s1(2) by (rule Cons.IH)
qed

lemma calls_ok:
  assumes "processImagesWithWaitGroup w c fs0 sched = Some s \<or>
    processImagesWithChannel w c fs0 sched = Some s"
  shows "\<forall>x\<in>set (calls s). call_ok w c (batch w c fs0) x"
  using assms
proof
  assume "processImagesWithWaitGroup w c fs0 sched = Some s"
  then have "run w c sched ((boot fs0)\<lparr>mainpc := M_WaitGroup\<rparr>) = Some s"
    by (simp add: processImagesWithWaitGroup_def)
  then show ?thesis by (rule calls_run [OF inv_boot_waitgrp, rotated]) (simp add: boot_def)
next
  assume "processImagesWithChannel w c fs0 sched = Some s"
  then have "run w c sched ((boot fs0)\<lparr>mainpc := M_Channel\<rparr>) = Some s"
    by (simp add: processImagesWithChannel_def)
  then show ?thesis by (rule calls_run [OF inv_boot_channel, rotated]) (simp add: boot_def)
qed

lemma reachable_running:
  assumes "inv w c fs0 s" and "i < length (workers s)" and "workers s ! i \<noteq> W_Exit"
  shows "\<not> crashed s" and "mainpc s \<noteq> M_Exit"
proof -
  from assms(1) show "\<not> crashed s" by (simp add: inv_def)
  show "mainpc s \<noteq> M_Exit"
  proof
    assume "mainpc s = M_Exit"
    from at_exit(4) [OF assms(1) this] assms(2,3) show False by (auto dest: exited_nth)
  qed
qed

text \<open>
  C10. In both strategies every recorded call of the blur collaborator has the radius 5 (and
  is made only when the filter is \<^verbatim>\<open>blur\<close>); and whenever the filter is \<^verbatim>\<open>blur\<close>, the
  step of a worker at its \<^verbatim>\<open>switch\<close> whose source image opens calls the collaborator
  with radius 5 and keeps the image it returns for the save.
\<close>

theorem blur_radius_fixed:
  assumes "processImagesWithWaitGroup w c fs0 sched = Some s \<or>
    processImagesWithChannel w c fs0 sched = Some s"
  shows "(\<forall>r. BlurCall r \<in> set (calls s) \<longrightarrow> r = 5 \<and> filterName c = ''blur'') \<and>
    (\<forall>i n rest img. i < length (workers s) \<and> workers s ! i = W_Switch n rest \<and>
       filterName c = ''blur'' \<and> Open w (fs s) (Join w (srcPath c) n) = Inr img \<longrightarrow>
       step w c (Worker i) s =
         Some (goto i (W_Save n (Blur w img 5) rest)
           (s\<lparr>calls := calls s @ [OpenCall (Join w (srcPath c) n), BlurCall 5]\<rparr>)))"
proof -
  from assms have inv: "inv w c fs0 s" by (blast intro: waitgrp_inv channel_inv)
  from calls_ok [OF assms]
  have 1: "\<forall>r. BlurCall r \<in> set (calls s) \<longrightarrow> r = 5 \<and> filterName c = ''blur''"
    by fastforce
  have 2: "step w c (Worker i) s =
      Some (goto i (W_Save n (Blur w img 5) rest)
        (s\<lparr>calls := calls s @ [OpenCall (Join w (srcPath c) n), BlurCall 5]\<rparr>))"
    if "i < length (workers s)" "workers s ! i = W_Switch n rest" "filterName c = ''blur''"
      "Open w (fs s) (Join w (srcPath c) n) = Inr img" for i n rest img
    using that reachable_running [OF inv that(1)]
    by (simp add: step_def step_worker_def)
  from 1 2 show ?thesis by blast
qed

theorem blur_radius_fixed_witness:
  "\<exists>s. processImagesWithChannel example_world example_flags [] [Main, Main] = Some s \<and>
     workers s ! 0 = W_Index 0 \<and>
     (\<exists>s'. step example_world example_flags (Worker 0) s = Some s' \<and>
        workers s' ! 0 = W_Switch ''a.png'' [] \<and>
        step example_world example_flags (Worker 0) s' =
          Some (goto 0 (W_Save ''a.png'' (Blur example_world 1 5) [])
            (s'\<lparr>calls := calls s' @ [OpenCall ''in/a.png'', BlurCall 5]\<rparr>)))"
proof -
  let ?s' = "\<lparr>mainpc = M_Spawn 1, workers = [W_Switch ''a.png'' []], sup = S_None,
      fileList = example_dir, chan = [], sent = [], cap = 3, closed = False, wg = 1,
      out = [], calls = [ReadDirCall ''in''], fs = [], crashed = False\<rparr>"
  have run: "processImagesWithChannel example_world example_flags [] [Main, Main, Worker 0] =
      Some ?s'"
    by (simp add: model_defs example_defs)
  have "step example_world example_flags (Worker 0) ?s' =
      Some (goto 0 (W_Save ''a.png'' (Blur example_world 1 5) [])
        (?s'\<lparr>calls := calls ?s' @ [OpenCall (Join example_world (srcPath example_flags) ''a.png''),
          BlurCall 5]\<rparr>))"
    using blur_radius_fixed [OF disjI2 [OF run]] by (simp add: example_defs)
  then show ?thesis
    by (simp add: model_defs example_defs)
qed

lemma saved_append [simp]: "saved (xs @ ys) = saved xs @ saved ys"
  by (induction xs rule: saved.induct) simp_all









lemma example_flags_simps:
  "srcPath example_flags = ''in''" "destPath example_flags = ''out''"
  "filterName example_flags = ''blur''" "Join example_world d n = d @ ''/'' @ n"
  "ReadDir example_world fs0 ''in'' = Inr example_dir"
  by (simp_all add: example_flags_def example_world_def)



lemma step_boot:
  "step w c t (boot fs0) = Some s1 \<Longrightarrow> t = Main \<and> step_main w c (boot fs0) = Some s1"
  by (cases t) (simp_all add: step_def step_worker_def step_sup_def boot_def)

lemma run_exit: "mainpc s = M_Exit \<Longrightarrow> run w c sched s = Some s' \<Longrightarrow> sched = [] \<and> s' = s"
  by (cases sched) (simp_all add: step_def)

text \<open>
  C8. When one of the four flags is empty, \<^verbatim>\<open>main\<close> can take exactly one step: it prints
  the usage line and returns, with exit status 0; when the flags are there but the task is
  neither \<^verbatim>\<open>waitgrp\<close> nor \<^verbatim>\<open>channel\<close>, its one step prints the error and returns. In both
  cases no goroutine was started, no collaborator was called and the file system is
  untouched.
\<close>

theorem main_rejects:
  fixes w :: "('fs, 'img) world"
  assumes "srcPath c = [] \<or> destPath c = [] \<or> filterName c = [] \<or> task c = [] \<or>
      task c \<noteq> ''waitgrp'' \<and> task c \<noteq> ''channel''"
    and "l = (if srcPath c = [] \<or> destPath c = [] \<or> filterName c = [] \<or> task c = []
      then Usage else InvalidTask (task c))"
  shows "main w c fs0 [Main] = Some ((boot fs0)\<lparr>out := [l], mainpc := M_Exit\<rparr>) \<and>
    exit_status ((boot fs0)\<lparr>out := [l], mainpc := M_Exit\<rparr> :: ('fs, 'img) state) = Some 0 \<and>
    (\<forall>sched s. main w c fs0 sched = Some s \<longrightarrow>
       calls s = [] \<and> fs s = fs0 \<and> workers s = [] \<and> sup s = S_None \<and>
       (sched = [] \<and> s = boot fs0 \<or>
        sched = [Main] \<and> s = (boot fs0)\<lparr>out := [l], mainpc := M_Exit\<rparr>))"
proof -
  let ?s1 = "(boot fs0)\<lparr>out := [l], mainpc := M_Exit\<rparr> :: ('fs, 'img) state"
  from assms have st: "step_main w c (boot fs0) = Some ?s1"
    by (auto simp: step_main_def boot_def)
  then have 1: "main w c fs0 [Main] = Some ?s1"
    by (simp add: main_def step_def) (simp add: boot_def)
  have 2: "exit_status ?s1 = Some 0" by (simp add: exit_status_def boot_def)
  have 3: "calls s = [] \<and> fs s = fs0 \<and> workers s = [] \<and> sup s = S_None \<and>
      (sched = [] \<and> s = boot fs0 \<or> sched = [Main] \<and> s = ?s1)"
    if run: "main w c fs0 sched = Some s" for sched s
  proof (cases sched)
    case Nil
    with run have "s = boot fs0" by (simp add: main_def)
    with Nil show ?thesis by (simp add: boot_def)
  next
    case (Cons t ts)
    with run obtain s1 where s1: "step w c t (boot fs0) = Some s1" "run w c ts s1 = Some s"
      by (auto simp: main_def split: option.splits)
    from step_boot [OF s1(1)] st have t: "t = Main" "s1 = ?s1" by simp_all
    from run_exit [OF _ s1(2)] t have "ts = []" "s = ?s1" by simp_all
    with Cons t show ?thesis by (simp add: boot_def)
  qed
  from 1 2 3 show ?thesis by blast
qed

theorem main_rejects_witness:
  "main example_world no_flags [] [Main] =
     Some ((boot [])\<lparr>out := [Usage], mainpc := M_Exit\<rparr>) \<and>
   main example_world (example_flags\<lparr>task := ''pool''\<rparr>) [] [Main] =
     Some ((boot [])\<lparr>out := [InvalidTask ''pool''], mainpc := M_Exit\<rparr>)"
proof -
  have "main example_world no_flags [] [Main] =
      Some ((boot [])\<lparr>out := [Usage], mainpc := M_Exit\<rparr>)"
    using main_rejects [of no_flags Usage example_world "[]"]
    by (simp add: no_flags_def)
  moreover have "main example_world (example_flags\<lparr>task := ''pool''\<rparr>) [] [Main] =
      Some ((boot [])\<lparr>out := [InvalidTask ''pool''], mainpc := M_Exit\<rparr>)"
    using main_rejects [of "example_flags\<lparr>task := ''pool''\<rparr>" "InvalidTask ''pool''"
        example_world "[]"]
    by (simp add: example_flags_def)
  ultimately show ?thesis by simp
qed

lemma inv_fail_step:
  assumes rd: "ReadDir w fs0 (srcPath c) = Inl e"
    and inv: "inv w c fs0 s" and fl: "inv_fail e s" and st: "step w c t s = Some s'"
  shows "inv_fail e s'"
  using st
proof (cases rule: step_cases)
  case Main
  from inv fl have ch: "chan s = []" by (simp add: inv_def inv_cons_def inv_fail_def)
  from Main(4) show ?thesis
    by (cases rule: step_main_cases) (use fl ch Main(2) in \<open>auto simp: inv_fail_def\<close>)
next
  case (Worker i)
  from Worker(4) have len: "i < length (workers s)"
    by (auto simp: step_worker_def split: if_splits)
  with fl obtain pc where pc: "workers s = [pc]" "i = 0"
    by (cases "workers s") (auto simp: inv_fail_def)
  from inv pc have fs: "pc = W_ReadDir \<Longrightarrow> fs s = fs0"
    by (simp add: inv_def inv_workers_def)
  from inv_step_worker [OF inv Worker(4)] have nc: "\<not> crashed s'" by (simp add: inv_def)
  from Worker(4) show ?thesis
    by (cases rule: step_worker_cases) (use fl pc fs rd nc in \<open>auto simp: inv_fail_def goto_def\<close>)
next
  case Supervisor
  from sup_frame [OF Supervisor(4)] fl show ?thesis by (simp add: inv_fail_def)
qed

lemma inv_fail_run:
  "ReadDir w fs0 (srcPath c) = Inl e \<Longrightarrow> inv w c fs0 s \<Longrightarrow> inv_fail e s \<Longrightarrow>
    run w c sched s = Some s' \<Longrightarrow> inv_fail e s'"
proof (induction sched arbitrary: s)
  case Nil
  then show ?case by simp
next
  case (Cons t ts)
  from Cons.prems(4) obtain s1 where s1: "step w c t s = Some s1" "run w c ts s1 = Some s'"
    by (auto split: option.splits)
  from Cons.prems(2) s1(1) have "inv w c fs0 s1" by (rule inv_step)
  moreover from Cons.prems(1,2,3) s1(1) have "inv_fail e s1" by (rule inv_fail_step)
  ultimately show ?case using s1(2) by (rule Cons.IH [OF Cons.prems(1)])
qed

lemma channel_fail_runs:
  fixes w :: "('fs, 'img) world"
  assumes rd: "ReadDir w fs0 (srcPath c) = Inl e"
    and run: "processImagesWithChannel w c fs0 sched = Some s"
  shows "sched = [] \<and> s = (boot fs0)\<lparr>mainpc := M_Channel\<rparr> \<or>
    sched = [Main] \<and>
      s = (boot fs0)\<lparr>mainpc := M_Fail e, calls := [ReadDirCall (srcPath c)]\<rparr> \<or>
    sched = [Main, Main] \<and>
      s = (boot fs0)\<lparr>mainpc := M_Exit, calls := [ReadDirCall (srcPath c)],
        out := [ReadDirError e]\<rparr>"
proof -
  let ?s0 = "(boot fs0)\<lparr>mainpc := M_Channel\<rparr> :: ('fs, 'img) state"
  let ?s1 = "(boot fs0)\<lparr>mainpc := M_Fail e, calls := [ReadDirCall (srcPath c)]\<rparr> :: ('fs, 'img) state"
  let ?s2 = "(boot fs0)\<lparr>mainpc := M_Exit, calls := [ReadDirCall (srcPath c)],
        out := [ReadDirError e]\<rparr> :: ('fs, 'img) state"
  have st0: "step w c t ?s0 = Some x \<Longrightarrow> t = Main \<and> x = ?s1" for t x
    using rd
    by (cases t) (auto simp: step_def step_main_def step_worker_def step_sup_def boot_def)
  have st1: "step w c t ?s1 = Some x \<Longrightarrow> t = Main \<and> x = ?s2" for t x
    by (cases t) (auto simp: step_def step_main_def step_worker_def step_sup_def boot_def)
  from run have r: "run w c sched ?s0 = Some s" by (simp add: processImagesWithChannel_def)
  show ?thesis
  proof (cases sched)
    case Nil
    with r show ?thesis by simp
  next
    case (Cons t ts)
    with r obtain x where x: "step w c t ?s0 = Some x" "run w c ts x = Some s"
      by (auto split: option.splits)
    from st0 [OF x(1)] have t: "t = Main" "x = ?s1" by simp_all
    show ?thesis
    proof (cases ts)
      case Nil
      with x(2) t Cons show ?thesis by simp
    next
      case (Cons t' ts')
      with x(2) t obtain y where y: "step w c t' ?s1 = Some y" "run w c ts' y = Some s"
        by (auto split: option.splits)
      from st1 [OF y(1)] have t': "t' = Main" "y = ?s2" by simp_all
      from run_exit [OF _ y(2)] t' have "ts' = []" "s = ?s2" by simp_all
      with t t' Cons \<open>sched = t # ts\<close> show ?thesis by simp
    qed
  qed
qed

text \<open>
  C5. When \<^verbatim>\<open>ReadDir\<close> fails with \<open>e\<close>: in the first strategy no event is ever sent, the
  only line ever printed is the report of \<open>e\<close>, every run has at most 8 steps and is not
  stuck before \<^verbatim>\<open>main\<close> returns, and at that moment the report was printed once, the
  worker has returned, the wait-group is at zero and the channel is closed; in the second
  strategy no goroutine is ever started, \<^verbatim>\<open>main\<close> alone runs, for at most 2 steps, and
  returns after printing the report once.
\<close>

theorem enumeration_failure:
  fixes w :: "('fs, 'img) world"
  assumes "ReadDir w fs0 (srcPath c) = Inl e"
  shows "(processImagesWithWaitGroup w c fs0 sched = Some s \<longrightarrow>
       length sched \<le> 8 \<and> \<not> crashed s \<and> sent s = [] \<and>
       (out s = [] \<or> out s = [ReadDirError e]) \<and>
       (mainpc s \<noteq> M_Exit \<longrightarrow> (\<exists>t. enabled w c s t)) \<and>
       (mainpc s = M_Exit \<longrightarrow>
          out s = [ReadDirError e] \<and> workers s = [W_Exit] \<and> wg s = 0 \<and> closed s)) \<and>
    (processImagesWithChannel w c fs0 sched = Some s \<longrightarrow>
       length sched \<le> 2 \<and> \<not> crashed s \<and> workers s = [] \<and> sup s = S_None \<and> sent s = [] \<and>
       (out s = [] \<or> out s = [ReadDirError e]) \<and>
       (mainpc s \<noteq> M_Exit \<longrightarrow> enabled w c s Main) \<and>
       (mainpc s = M_Exit \<longrightarrow> out s = [ReadDirError e]))"
proof -
  have A: "length sched \<le> 8 \<and> \<not> crashed s \<and> sent s = [] \<and>
       (out s = [] \<or> out s = [ReadDirError e]) \<and>
       (mainpc s \<noteq> M_Exit \<longrightarrow> (\<exists>t. enabled w c s t)) \<and>
       (mainpc s = M_Exit \<longrightarrow>
          out s = [ReadDirError e] \<and> workers s = [W_Exit] \<and> wg s = 0 \<and> closed s)"
    if run: "processImagesWithWaitGroup w c fs0 sched = Some s"
  proof -
    from assms have es: "batch w c fs0 = []" by (simp add: batch_def)
    from run have inv: "inv w c fs0 s" by (rule waitgrp_inv)
    have "inv_fail e ((boot fs0)\<lparr>mainpc := M_WaitGroup\<rparr> :: ('fs, 'img) state)"
      by (simp add: inv_fail_def boot_def)
    with assms inv_boot_waitgrp have fl: "inv_fail e s"
      using run unfolding processImagesWithWaitGroup_def by (rule inv_fail_run)
    from waitgrp_bound [OF run] es have 1: "length sched \<le> 8" by simp
    from inv have 2: "\<not> crashed s" by (simp add: inv_def)
    from fl have 3: "sent s = []" by (simp add: inv_fail_def)
    from fl have 4: "out s = [] \<or> out s = [ReadDirError e]" by (auto simp: inv_fail_def)
    have 5: "\<exists>t. enabled w c s t" if "mainpc s \<noteq> M_Exit"
      using progress [OF inv that] by (simp add: enabled_def)
    have 6: "out s = [ReadDirError e] \<and> workers s = [W_Exit] \<and> wg s = 0 \<and> closed s"
      if ex: "mainpc s = M_Exit"
    proof -
      from at_exit(4) [OF inv ex] fl ex
      have w: "workers s = [W_Exit]" "out s = [ReadDirError e]"
        by (auto simp: inv_fail_def exited_def)
      from inv ex w have "closed s" by (auto simp: inv_def inv_main_def)
      with w at_exit(5) [OF inv ex] show ?thesis by simp
    qed
    from 1 2 3 4 5 6 show ?thesis by blast
  qed
  have B: "length sched \<le> 2 \<and> \<not> crashed s \<and> workers s = [] \<and> sup s = S_None \<and> sent s = [] \<and>
       (out s = [] \<or> out s = [ReadDirError e]) \<and>
       (mainpc s \<noteq> M_Exit \<longrightarrow> enabled w c s Main) \<and>
       (mainpc s = M_Exit \<longrightarrow> out s = [ReadDirError e])"
    if run: "processImagesWithChannel w c fs0 sched = Some s"
    using channel_fail_runs [OF assms run] assms
    by (elim disjE conjE; simp add: boot_def enabled_def step_def step_main_def)
  from A B show ?thesis by blast
qed

theorem enumeration_failure_witness:
  "\<exists>s. processImagesWithWaitGroup example_world missing_flags []
         [Main, Worker 0, Worker 0, Worker 0, Main, Supervisor, Supervisor, Main] = Some s \<and>
       mainpc s = M_Exit \<and> out s = [ReadDirError ''no such directory''] \<and>
       workers s = [W_Exit] \<and> wg s = 0 \<and> closed s \<and> sent s = []"
proof -
  have rd: "ReadDir example_world [] (srcPath missing_flags) = Inl ''no such directory''"
    by (simp add: example_world_def missing_flags_def)
  have run: "processImagesWithWaitGroup example_world missing_flags []
      [Main, Worker 0, Worker 0, Worker 0, Main, Supervisor, Supervisor, Main] =
    Some \<lparr>mainpc = M_Exit, workers = [W_Exit], sup = S_Exit, fileList = [], chan = [],
      sent = [], cap = 0, closed = True, wg = 0, out = [ReadDirError ''no such directory''],
      calls = [ReadDirCall ''nowhere''], fs = [], crashed = False\<rparr>"
    by (simp add: model_defs example_world_def missing_flags_def)
  from enumeration_failure [OF rd, THEN conjunct1, rule_format, OF run] show ?thesis
    unfolding run by simp
qed

lemma sent_subset:
  assumes "inv w c fs0 s"
  shows "set (sent s) \<subseteq> set (names (batch w c fs0))"
proof -
  let ?es = "batch w c fs0"
  from assms have 1: "mset (notified (out s)) + pending ?es s = mset (names ?es)"
    and 2: "sent s = notified (out s) @ held (mainpc s) @ chan s"
    by (simp_all add: inv_def inv_cons_def)
  have "mset (notified (out s)) + pending ?es s =
      mset (sent s) + ((\<Sum>pc\<leftarrow>workers s. mset (owed ?es pc)) + mset (unspawned ?es (mainpc s)))"
    by (simp add: 2 pending_def)
  with 1 have "mset (sent s) \<subseteq># mset (names ?es)"
    by (metis mset_subset_eq_add_left)
  then show ?thesis using set_mset_mono by fastforce
qed

text \<open>
  C4, as the claim states it, fails for the second strategy: its loop starts one goroutine
  for every entry of the listing and the test for a directory is the first statement of the
  goroutine. Here the entry at index 1 is a directory, and after three steps of \<^verbatim>\<open>main\<close>
  the goroutine of index 1 has been started.
\<close>

theorem directory_task_counterexample:
  "IsDir (example_dir ! 1) \<and>
   map_option workers
     (processImagesWithChannel example_world example_flags [] [Main, Main, Main]) =
   Some [W_Index 0, W_Index 1]"
  by (simp add: model_defs example_defs)

text \<open>
  C4, amended. In both strategies a directory entry is never processed: every event sent,
  every image opened and every image saved belongs to the name of a non-directory entry of
  the listing. The first strategy has at most one worker, which skips directories in its
  loop. The second strategy starts one goroutine for each entry of the listing, directories
  included (as many goroutines as entries once the loop is over), and the goroutine of a
  directory entry goes straight to its \<^verbatim>\<open>wg.Done()\<close>.
\<close>

theorem directories_not_processed:
  fixes w :: "('fs, 'img) world"
  assumes "ReadDir w fs0 (srcPath c) = Inr es"
  shows "(processImagesWithWaitGroup w c fs0 sched = Some s \<or>
        processImagesWithChannel w c fs0 sched = Some s \<longrightarrow>
       set (sent s) \<subseteq> Name ` {e \<in> set es. \<not> IsDir e} \<and>
       (\<forall>p. OpenCall p \<in> set (calls s) \<longrightarrow>
          (\<exists>e\<in>set es. \<not> IsDir e \<and> p = Join w (srcPath c) (Name e))) \<and>
       (\<forall>p. SaveCall p \<in> set (calls s) \<longrightarrow>
          (\<exists>e\<in>set es. \<not> IsDir e \<and> p = Join w (destPath c) (Name e)))) \<and>
    (processImagesWithWaitGroup w c fs0 sched = Some s \<longrightarrow> length (workers s) \<le> 1) \<and>
    (processImagesWithChannel w c fs0 sched = Some s \<longrightarrow>
       length (workers s) \<le> length es \<and>
       (\<forall>k. mainpc s = M_Spawn k \<longrightarrow> length (workers s) = k) \<and>
       (mainpc s = M_Supervise \<or> mainpc s = M_Range \<or> (\<exists>n. mainpc s = M_Notify n) \<or>
          mainpc s = M_Exit \<longrightarrow> length (workers s) = length es) \<and>
       (\<forall>i k. i < length (workers s) \<and> workers s ! i = W_Index k \<and> IsDir (es ! k) \<longrightarrow>
          step w c (Worker i) s = Some (goto i W_Done s)))"
proof -
  from assms have es: "batch w c fs0 = es" by (simp add: batch_def)
  have nm: "set (names es) = Name ` {e \<in> set es. \<not> IsDir e}"
    by (auto simp: names_def)
  have 1: "set (sent s) \<subseteq> Name ` {e \<in> set es. \<not> IsDir e} \<and>
       (\<forall>p. OpenCall p \<in> set (calls s) \<longrightarrow>
          (\<exists>e\<in>set es. \<not> IsDir e \<and> p = Join w (srcPath c) (Name e))) \<and>
       (\<forall>p. SaveCall p \<in> set (calls s) \<longrightarrow>
          (\<exists>e\<in>set es. \<not> IsDir e \<and> p = Join w (destPath c) (Name e)))"
    if run: "processImagesWithWaitGroup w c fs0 sched = Some s \<or>
        processImagesWithChannel w c fs0 sched = Some s"
  proof -
    from run have inv: "inv w c fs0 s" by (blast intro: waitgrp_inv channel_inv)
    from sent_subset [OF inv] es nm have a: "set (sent s) \<subseteq> Name ` {e \<in> set es. \<not> IsDir e}"
      by simp
    from calls_ok [OF run] es
    have b: "\<forall>p. OpenCall p \<in> set (calls s) \<longrightarrow>
        (\<exists>e\<in>set es. \<not> IsDir e \<and> p = Join w (srcPath c) (Name e))"
      and c: "\<forall>p. SaveCall p \<in> set (calls s) \<longrightarrow>
        (\<exists>e\<in>set es. \<not> IsDir e \<and> p = Join w (destPath c) (Name e))"
      by (fastforce simp: names_def)+
    from a b c show ?thesis by blast
  qed
  have 2: "length (workers s) \<le> 1" if "processImagesWithWaitGroup w c fs0 sched = Some s"
    using waitgrp_inv_waitgrp [OF that] by (simp add: inv_waitgrp_def)
  have 3: "length (workers s) \<le> length es \<and>
       (\<forall>k. mainpc s = M_Spawn k \<longrightarrow> length (workers s) = k) \<and>
       (mainpc s = M_Supervise \<or> mainpc s = M_Range \<or> (\<exists>n. mainpc s = M_Notify n) \<or>
          mainpc s = M_Exit \<longrightarrow> length (workers s) = length es) \<and>
       (\<forall>i k. i < length (workers s) \<and> workers s ! i = W_Index k \<and> IsDir (es ! k) \<longrightarrow>
          step w c (Worker i) s = Some (goto i W_Done s))"
    if run: "processImagesWithChannel w c fs0 sched = Some s"
  proof -
    from run have inv: "inv w c fs0 s" and ch: "inv_channel w c fs0 s"
      by (rule channel_inv, rule channel_inv_channel)
    from inv ch assms have a: "length (workers s) \<le> length es \<and>
       (\<forall>k. mainpc s = M_Spawn k \<longrightarrow> length (workers s) = k) \<and>
       (mainpc s = M_Supervise \<or> mainpc s = M_Range \<or> (\<exists>n. mainpc s = M_Notify n) \<or>
          mainpc s = M_Exit \<longrightarrow> length (workers s) = length es)"
      by (cases "mainpc s") (auto simp: inv_channel_def inv_def inv_main_def)
    have b: "step w c (Worker i) s = Some (goto i W_Done s)"
      if "i < length (workers s)" "workers s ! i = W_Index k" "IsDir (es ! k)" for i k
    proof -
      from that(1) have "workers s ! i \<in> set (workers s)" by simp
      with inv that(2) es have "k < length (fileList s)" "fileList s = es"
        by (auto simp: inv_def inv_workers_def)
      with that reachable_running [OF inv that(1)] show ?thesis
        by (simp add: step_def step_worker_def)
    qed
    from a b show ?thesis by blast
  qed
  from 1 2 3 show ?thesis by blast
qed

theorem directories_not_processed_witness:
  "\<exists>s. processImagesWithChannel example_world example_flags [] [Main, Main, Main] = Some s \<and>
     workers s ! 1 = W_Index 1 \<and> IsDir (example_dir ! 1) \<and>
     step example_world example_flags (Worker 1) s = Some (goto 1 W_Done s)"
proof -
  have rd: "ReadDir example_world [] (srcPath example_flags) = Inr example_dir"
    by (simp add: example_flags_simps)
  have run: "processImagesWithChannel example_world example_flags [] [Main, Main, Main] =
    Some \<lparr>mainpc = M_Spawn 2, workers = [W_Index 0, W_Index 1], sup = S_None,
      fileList = example_dir, chan = [], sent = [], cap = 3, closed = False, wg = 2,
      out = [], calls = [ReadDirCall ''in''], fs = [], crashed = False\<rparr>"
    by (simp add: model_defs example_defs)
  from directories_not_processed [OF rd, THEN conjunct2, THEN conjunct2, rule_format, OF run]
  show ?thesis unfolding run by (simp add: example_dir_def)
qed

lemma reports_append [simp]: "reports c (xs @ ys) = reports c xs + reports c ys"
  by (simp add: reports_def)

lemma reports_single [simp]:
  "reports c [l] = (if l = InvalidFilter (filterName c) then 1 else 0)"
  by (simp add: reports_def)

lemma inv_bad_step:
  assumes bad: "filterName c \<noteq> ''grayscale''" "filterName c \<noteq> ''blur''"
    and inv: "inv w c fs0 s" and ib: "inv_bad w c fs0 s" and st: "step w c t s = Some s'"
  shows "inv_bad w c fs0 s'"
  using st
proof (cases rule: step_cases)
  case Main
  from Main(4) show ?thesis
  proof (cases rule: step_main_cases)
    case (ChannelOk fl)
    with ib show ?thesis by (auto simp: inv_bad_def batch_def)
  next
    case (ChannelFail e)
    with ib show ?thesis by (auto simp: inv_bad_def batch_def)
  next
    case (Spawn k)
    with ib inv show ?thesis by (auto simp: inv_bad_def inv_def inv_main_def drop_names)
  next
    case (SpawnEnd k)
    with ib inv show ?thesis by (auto simp: inv_bad_def inv_def inv_main_def)
  next
    case ToWaitGroup
    with inv show ?thesis by (simp add: inv_def inv_main_def)
  next
    case ToChannel
    with inv show ?thesis by (simp add: inv_def inv_main_def)
  qed (use ib in \<open>auto simp: inv_bad_def\<close>)
next
  case (Worker i)
  let ?es = "batch w c fs0"
  from Worker(4) have len: "i < length (workers s)"
    by (auto simp: step_worker_def split: if_splits)
  then have mem: "workers s ! i \<in> set (workers s)" by simp
  obtain r where r: "(\<Sum>pc\<leftarrow>workers s. due c ?es pc) = due c ?es (workers s ! i) + r"
      "\<And>y. (\<Sum>pc\<leftarrow>(workers s)[i := y]. due c ?es pc) = due c ?es y + r"
    using sum_list_split [OF len, where f = "due c ?es"] by blast
  from inv_step_worker [OF inv Worker(4)] have nc: "\<not> crashed s'" by (simp add: inv_def)
  from ib mem have ns: "\<And>n img rest. workers s ! i \<noteq> W_Save n img rest"
    by (auto simp: inv_bad_def)
  from inv mem have ix: "\<And>k. workers s ! i = W_Index k \<Longrightarrow> k < length ?es \<and> fileList s = ?es"
    by (auto simp: inv_def inv_workers_def)
  from Worker(4) show ?thesis
  proof (cases rule: step_worker_cases)
    case (ReadDirFail e)
    with ib r show ?thesis by (auto simp: inv_bad_def goto_def batch_def dest!: mem_upd)
  next
    case (ReadDirOk fl)
    with ib r show ?thesis by (auto simp: inv_bad_def goto_def batch_def dest!: mem_upd)
  next
    case (IndexDir k)
    with ib r ix [OF IndexDir(2)] show ?thesis
      by (auto simp: inv_bad_def goto_def take1_drop dest!: mem_upd)
  next
    case (IndexFile k)
    with ib r ix [OF IndexFile(2)] show ?thesis
      by (auto simp: inv_bad_def goto_def take1_drop dest!: mem_upd)
  qed (use ib r nc ns bad in \<open>auto simp: inv_bad_def goto_def dest!: mem_upd\<close>)
next
  case Supervisor
  from sup_frame [OF Supervisor(4)] ib show ?thesis by (simp add: inv_bad_def)
qed

lemma inv_bad_run:
  "filterName c \<noteq> ''grayscale'' \<Longrightarrow> filterName c \<noteq> ''blur'' \<Longrightarrow> inv w c fs0 s \<Longrightarrow>
    inv_bad w c fs0 s \<Longrightarrow> run w c sched s = Some s' \<Longrightarrow> inv_bad w c fs0 s'"
proof (induction sched arbitrary: s)
  case Nil
  then show ?case by simp
next
  case (Cons t ts)
  from Cons.prems(5) obtain s1 where s1: "step w c t s = Some s1" "run w c ts s1 = Some s'"
    by (auto split: option.splits)
  from Cons.prems(3) s1(1) have "inv w c fs0 s1" by (rule inv_step)
  moreover from Cons.prems(1,2,3,4) s1(1) have "inv_bad w c fs0 s1" by (rule inv_bad_step)
  ultimately show ?case using s1(2) by (rule Cons.IH [OF Cons.prems(1,2)])
qed

lemma inv_bad_reachable:
  assumes "filterName c \<noteq> ''grayscale''" "filterName c \<noteq> ''blur''"
    and "processImagesWithWaitGroup w c fs0 sched = Some s \<or>
      processImagesWithChannel w c fs0 sched = Some s"
  shows "inv_bad w c fs0 s"
  using assms(3)
proof
  assume "processImagesWithWaitGroup w c fs0 sched = Some s"
  then have "run w c sched ((boot fs0)\<lparr>mainpc := M_WaitGroup\<rparr>) = Some s"
    by (simp add: processImagesWithWaitGroup_def)
  then show ?thesis
    by (rule inv_bad_run [OF assms(1,2) inv_boot_waitgrp, rotated])
      (simp add: inv_bad_def boot_def reports_def)
next
  assume "processImagesWithChannel w c fs0 sched = Some s"
  then have "run w c sched ((boot fs0)\<lparr>mainpc := M_Channel\<rparr>) = Some s"
    by (simp add: processImagesWithChannel_def)
  then show ?thesis
    by (rule inv_bad_run [OF assms(1,2) inv_boot_channel, rotated])
      (simp add: inv_bad_def boot_def reports_def)
qed

lemma exited_due: "exited ws \<Longrightarrow> (\<Sum>pc\<leftarrow>ws. due c es pc) = 0"
  by (induction ws) (simp_all add: exited_def)

text \<open>
  C2. For every filter value, when \<^verbatim>\<open>main\<close> returns, the events that were sent are the
  names of the non-directory entries, each as often as it is listed, and they are the
  \<^verbatim>\<open>Finished processing\<close> lines. When the filter is neither \<^verbatim>\<open>grayscale\<close> nor
  \<^verbatim>\<open>blur\<close>, no image is ever opened or saved (the only collaborator call is the
  \<^verbatim>\<open>ReadDir\<close>, and the file system stays as it was), never more \<^verbatim>\<open>Invalid filter\<close>
  reports are printed than there are non-directory entries, and when \<^verbatim>\<open>main\<close> returns
  there is exactly one report and one \<^verbatim>\<open>Finished processing\<close> line for each of them.
\<close>

theorem one_event_per_item:
  assumes "ReadDir w fs0 (srcPath c) = Inr es"
    and "processImagesWithWaitGroup w c fs0 sched = Some s \<or>
      processImagesWithChannel w c fs0 sched = Some s"
  shows "(mainpc s = M_Exit \<longrightarrow>
       mset (sent s) = mset (map Name [e\<leftarrow>es. \<not> IsDir e]) \<and> notified (out s) = sent s) \<and>
    (filterName c \<noteq> ''grayscale'' \<and> filterName c \<noteq> ''blur'' \<longrightarrow>
       set (calls s) \<subseteq> {ReadDirCall (srcPath c)} \<and> fs s = fs0 \<and>
       length [l\<leftarrow>out s. l = InvalidFilter (filterName c)] \<le> length [e\<leftarrow>es. \<not> IsDir e] \<and>
       (mainpc s = M_Exit \<longrightarrow>
          length [l\<leftarrow>out s. l = InvalidFilter (filterName c)] = length [e\<leftarrow>es. \<not> IsDir e] \<and>
          length (notified (out s)) = length [e\<leftarrow>es. \<not> IsDir e]))"
proof -
  from assms(1) have es: "batch w c fs0 = es" by (simp add: batch_def)
  from assms(2) have inv: "inv w c fs0 s" by (blast intro: waitgrp_inv channel_inv)
  have 1: "mset (sent s) = mset (map Name [e\<leftarrow>es. \<not> IsDir e]) \<and> notified (out s) = sent s"
    if "mainpc s = M_Exit"
    using at_exit(1,2) [OF inv that] es by (simp add: names_def)
  have 2: "set (calls s) \<subseteq> {ReadDirCall (srcPath c)} \<and> fs s = fs0 \<and>
       length [l\<leftarrow>out s. l = InvalidFilter (filterName c)] \<le> length [e\<leftarrow>es. \<not> IsDir e] \<and>
       (mainpc s = M_Exit \<longrightarrow>
          length [l\<leftarrow>out s. l = InvalidFilter (filterName c)] = length [e\<leftarrow>es. \<not> IsDir e] \<and>
          length (notified (out s)) = length [e\<leftarrow>es. \<not> IsDir e])"
    if bad: "filterName c \<noteq> ''grayscale''" "filterName c \<noteq> ''blur''"
  proof -
    from inv_bad_reachable [OF bad assms(2)] have ib: "inv_bad w c fs0 s" .
    from ib have a: "set (calls s) \<subseteq> {ReadDirCall (srcPath c)}" "fs s = fs0"
      by (simp_all add: inv_bad_def)
    from ib es have b: "reports c (out s) \<le> length [e\<leftarrow>es. \<not> IsDir e]"
      by (simp add: inv_bad_def length_names)
    have d: "reports c (out s) = length [e\<leftarrow>es. \<not> IsDir e] \<and>
        length (notified (out s)) = length [e\<leftarrow>es. \<not> IsDir e]" if ex: "mainpc s = M_Exit"
    proof -
      from ib ex exited_due [OF at_exit(4) [OF inv ex]] es
      have "reports c (out s) = length [e\<leftarrow>es. \<not> IsDir e]"
        by (simp add: inv_bad_def length_names)
      moreover from at_exit(2) [OF inv ex] es
      have "length (notified (out s)) = length [e\<leftarrow>es. \<not> IsDir e]"
        by (metis length_names size_mset)
      ultimately show ?thesis by simp
    qed
    from a b d show ?thesis by (simp add: reports_def)
  qed
  from 1 2 show ?thesis by blast
qed

theorem one_event_per_item_witness:
  "\<exists>s. processImagesWithWaitGroup example_world sepia_flags [] waitgrp_schedule = Some s \<and>
     mainpc s = M_Exit \<and> sent s = [''a.png'', ''b.txt''] \<and> calls s = [ReadDirCall ''in''] \<and>
     fs s = [] \<and>
     out s = [InvalidFilter ''sepia'', InvalidFilter ''sepia'', Finished ''a.png'',
       Finished ''b.txt'']"
proof -
  have rd: "ReadDir example_world [] (srcPath sepia_flags) = Inr example_dir"
    by (simp add: example_world_def sepia_flags_def)
  have run: "processImagesWithWaitGroup example_world sepia_flags [] waitgrp_schedule =
    Some \<lparr>mainpc = M_Exit, workers = [W_Exit], sup = S_Exit, fileList = [], chan = [],
      sent = [''a.png'', ''b.txt''], cap = 0, closed = True, wg = 0,
      out = [InvalidFilter ''sepia'', InvalidFilter ''sepia'', Finished ''a.png'',
        Finished ''b.txt''],
      calls = [ReadDirCall ''in''], fs = [], crashed = False\<rparr>"
    by (simp add: model_defs example_world_def example_dir_def waitgrp_schedule_def
        sepia_flags_def)
  from one_event_per_item [OF rd disjI1 [OF run]] show ?thesis
    unfolding run by simp
qed

end
